theory Spec2Isabelle
  imports Complex_Main
begin

section \<open>Strings and numbers of the program\<close>

text \<open>
  A JavaScript string is a sequence of UTF-16 code units; a code unit is modelled as a
  natural number. \<open>str\<close> embeds an ASCII literal. A JavaScript Number is a double:
  \<open>NaN\<close>, an infinity, or a finite value (\<open>Num\<close>, which carries the value of the
  double as a rational).
\<close>

type_synonym jsstring = "nat list"

definition str :: "string \<Rightarrow> jsstring" where
  "str s = map of_char s"

datatype number = NaN | Num rat | Infinity | NegInfinity

text \<open>White space and line terminators of ECMAScript: what \<open>\s\<close> matches and what
  \<open>trim\<close> and \<open>parseInt\<close> skip.\<close>

definition isWhiteSpace :: "nat \<Rightarrow> bool" where
  "isWhiteSpace c \<longleftrightarrow>
     c = 9 \<or> c = 10 \<or> c = 11 \<or> c = 12 \<or> c = 13 \<or> c = 32 \<or> c = 160 \<or> c = 5760 \<or>
     (8192 \<le> c \<and> c \<le> 8202) \<or> c = 8232 \<or> c = 8233 \<or> c = 8239 \<or> c = 8287 \<or>
     c = 12288 \<or> c = 65279"

definition isDigit :: "nat \<Rightarrow> bool" where
  "isDigit c \<longleftrightarrow> 48 \<le> c \<and> c \<le> 57"

text \<open>Case folding of the letters A to Z. The program lower-cases a string only to
  compare its start with \<open>alt:\<close>, and its regular expressions ignore case without the
  unicode flag: no code unit outside ASCII is folded onto an ASCII letter, a digit,
  \<open>:\<close>, \<open>/\<close>, \<open>-\<close> or the multiplication sign, so folding ASCII is all these
  comparisons can observe.\<close>

definition toLowerCase :: "nat \<Rightarrow> nat" where
  "toLowerCase c = (if 65 \<le> c \<and> c \<le> 90 then c + 32 else c)"

definition canonicalize :: "nat \<Rightarrow> nat" where
  "canonicalize c = (if 97 \<le> c \<and> c \<le> 122 then c - 32 else c)"

definition trim :: "jsstring \<Rightarrow> jsstring" where
  "trim s = rev (dropWhile isWhiteSpace (rev (dropWhile isWhiteSpace s)))"

text \<open>\<open>s.split(sep)\<close> for a separator of one code unit: never empty.\<close>

fun split :: "nat \<Rightarrow> jsstring \<Rightarrow> jsstring \<Rightarrow> jsstring list" where
  "split sep acc [] = [rev acc]"
| "split sep acc (x # xs) =
     (if x = sep then rev acc # split sep [] xs else split sep (x # acc) xs)"

text \<open>
  The Number for a mathematical value: the nearest double, a tie going to the even
  significand, and an infinity from \<open>2 ^ 1024\<close> on. \<open>roundRatio a b\<close> does it for the
  ratio of two natural numbers (\<open>b\<close> is not 0): \<open>e\<close> is the exponent of the last
  place, at least that of the subnormal doubles, and \<open>m\<close> the ratio in units of that
  place, rounded. The language lets an implementation drop the digits of a decimal
  numeral after the twentieth before it rounds; the model rounds the value itself.
\<close>

fun bitlen :: "nat \<Rightarrow> nat" where
  "bitlen n = (if n = 0 then 0 else Suc (bitlen (n div 2)))"

definition floorlog2 :: "nat \<Rightarrow> nat \<Rightarrow> int" where
  "floorlog2 a b =
     (let d = int (bitlen a) - int (bitlen b)
      in if (if 0 \<le> d then b * 2 ^ nat d \<le> a else b \<le> a * 2 ^ nat (- d)) then d else d - 1)"

definition roundRatio :: "nat \<Rightarrow> nat \<Rightarrow> number" where
  "roundRatio a b =
     (if a = 0 then Num 0
      else
        let e = max (- 1074) (floorlog2 a b - 52);
            num = (if 0 \<le> e then a else a * 2 ^ nat (- e));
            den = (if 0 \<le> e then b * 2 ^ nat e else b);
            f = num div den;
            r = num mod den;
            m = (if den < 2 * r \<or> (2 * r = den \<and> odd f) then f + 1 else f)
        in if 0 \<le> e then
             (if 2 ^ 1024 \<le> m * 2 ^ nat e then Infinity else Num (of_nat (m * 2 ^ nat e)))
           else Num (of_nat m / 2 ^ nat (- e)))"

definition toDouble :: "nat \<Rightarrow> number" where
  "toDouble n = roundRatio n 1"

definition negate :: "number \<Rightarrow> number" where
  "negate n =
     (case n of NaN \<Rightarrow> NaN | Num q \<Rightarrow> Num (- q) | Infinity \<Rightarrow> NegInfinity
      | NegInfinity \<Rightarrow> Infinity)"

text \<open>\<open>parseInt(s)\<close> with no radix: skip leading white space, read a sign, switch to
  radix 16 after \<open>0x\<close>, read the longest run of digits; \<open>NaN\<close> when that run is empty.\<close>

definition digitValue :: "nat \<Rightarrow> nat" where
  "digitValue c =
     (if 48 \<le> c \<and> c \<le> 57 then c - 48
      else if 97 \<le> c \<and> c \<le> 122 then c - 87
      else if 65 \<le> c \<and> c \<le> 90 then c - 55
      else 36)"

definition radixValue :: "nat \<Rightarrow> jsstring \<Rightarrow> nat" where
  "radixValue R z = foldl (\<lambda>acc c. acc * R + digitValue c) 0 z"

definition parseInt :: "jsstring \<Rightarrow> number" where
  "parseInt s =
     (let t = dropWhile isWhiteSpace s;
          negative = (take 1 t = [45]);
          u = (if take 1 t = [43] \<or> take 1 t = [45] then drop 1 t else t);
          hex = (map canonicalize (take 2 u) = [48, 88]);
          R = (if hex then 16 else 10);
          v = (if hex then drop 2 u else u);
          z = takeWhile (\<lambda>c. digitValue c < R) v
      in if z = [] then NaN
         else if negative then negate (toDouble (radixValue R z))
         else toDouble (radixValue R z))"

text \<open>\<open>parseFloat(s)\<close>: skip leading white space, read a sign, then \<open>Infinity\<close> or
  the longest decimal literal: digits, a fraction, an exponent; \<open>NaN\<close> when there is no
  digit before the exponent. 46 is the dot, 101 and 69 the letter e.\<close>

definition exponentOf :: "jsstring \<Rightarrow> int" where
  "exponentOf r =
     (if take 1 r = [101] \<or> take 1 r = [69] then
        (let r' = drop 1 r;
             d = takeWhile isDigit
                   (if take 1 r' = [43] \<or> take 1 r' = [45] then drop 1 r' else r')
         in if d = [] then 0
            else if take 1 r' = [45] then - int (radixValue 10 d)
            else int (radixValue 10 d))
      else 0)"

definition parseFloat :: "jsstring \<Rightarrow> number" where
  "parseFloat s =
     (let t = dropWhile isWhiteSpace s;
          negative = (take 1 t = [45]);
          u = (if take 1 t = [43] \<or> take 1 t = [45] then drop 1 t else t);
          ip = takeWhile isDigit u;
          r1 = dropWhile isDigit u;
          fp = (if take 1 r1 = [46] then takeWhile isDigit (drop 1 r1) else []);
          r2 = (if take 1 r1 = [46] then dropWhile isDigit (drop 1 r1) else r1);
          E = exponentOf r2 - int (length fp);
          m = (if 0 \<le> E then roundRatio (radixValue 10 (ip @ fp) * 10 ^ nat E) 1
               else roundRatio (radixValue 10 (ip @ fp)) (10 ^ nat (- E)))
      in if take 8 u = str ''Infinity'' then (if negative then NegInfinity else Infinity)
         else if ip = [] \<and> fp = [] then NaN
         else if negative then negate m else m)"

text \<open>\<open>!n\<close> for a Number: \<open>NaN\<close> and zero are falsy.\<close>

definition falsy :: "number \<Rightarrow> bool" where
  "falsy n \<longleftrightarrow> n = NaN \<or> n = Num 0"

section \<open>Regular expressions with backtracking\<close>

text \<open>
  The expression \<open>parseRx\<close> matches a scheme with is built from character classes,
  concatenation, the greedy star of a class, the greedy option and capture groups (its
  other expression, \<open>/\/side/i\<close>, is a literal and is modelled by \<open>sideAt\<close> below).
  \<open>run r (caps, inp)\<close> lists, in the order in which a backtracking matcher tries them,
  the states in which \<open>r\<close> can leave the input: the captures and the unread rest.
  The first state is the one the matcher commits to when everything after it succeeds.

  The class \<open>Chars cs\<close> is matched under the ignore-case flag.
  \<open>Opt\<close> drops an iteration that read nothing, as the language's repeat matcher does.
  That matcher also resets the captures inside an optional part before trying it; every
  attempt here starts with no capture set and reaches each group once, so the reset has
  nothing to undo.
\<close>

datatype cls = Digit | WhiteSp | Chars "nat list"

fun inCls :: "cls \<Rightarrow> nat \<Rightarrow> bool" where
  "inCls Digit c = isDigit c"
| "inCls WhiteSp c = isWhiteSpace c"
| "inCls (Chars cs) c = (canonicalize c \<in> set (map canonicalize cs))"

datatype regex =
    Cls cls
  | Cat regex regex
  | Star cls
  | Opt regex
  | Group nat regex

type_synonym captures = "nat \<Rightarrow> jsstring option"

fun star :: "cls \<Rightarrow> captures \<Rightarrow> jsstring \<Rightarrow> (captures \<times> jsstring) list" where
  "star k c [] = [(c, [])]"
| "star k c (x # xs) =
     (if inCls k x then star k c xs @ [(c, x # xs)] else [(c, x # xs)])"

primrec run :: "regex \<Rightarrow> captures \<times> jsstring \<Rightarrow> (captures \<times> jsstring) list" where
  "run (Cls k) = (\<lambda>(c, inp).
     case inp of [] \<Rightarrow> [] | x # xs \<Rightarrow> if inCls k x then [(c, xs)] else [])"
| "run (Cat r1 r2) = (\<lambda>s. concat (map (run r2) (run r1 s)))"
| "run (Star k) = (\<lambda>(c, inp). star k c inp)"
| "run (Opt r) = (\<lambda>(c, inp).
     filter (\<lambda>(c', rest). length rest < length inp) (run r (c, inp)) @ [(c, inp)])"
| "run (Group n r) = (\<lambda>(c, inp).
     map (\<lambda>(c', rest). (c'(n := Some (take (length inp - length rest) inp)), rest))
       (run r (c, inp)))"

text \<open>\<open>str.match(re)\<close> without the global flag: the first start index, from the left,
  at which the expression matches; the captures of that match, or nothing.\<close>

fun exec :: "regex \<Rightarrow> jsstring \<Rightarrow> captures option" where
  "exec r inp =
     (case run r (\<lambda>_. None, inp) of
        (c, rest) # _ \<Rightarrow> Some c
      | [] \<Rightarrow> (case inp of [] \<Rightarrow> None | _ # xs \<Rightarrow> exec r xs))"

definition plus :: "cls \<Rightarrow> regex" where
  "plus k = Cat (Cls k) (Star k)"

section \<open>parseRx\<close>

text \<open>\<open>/(\d+)(?:\s*-\s*(\d+))?\s*[\<times>x]\s*(\d+)(?:\s*-\s*(\d+))?/i\<close>; 45 is the
  hyphen, 215 the multiplication sign, 120 the letter x.\<close>

definition rangeBody :: "nat \<Rightarrow> regex" where
  "rangeBody n =
     Cat (Star WhiteSp) (Cat (Cls (Chars [45])) (Cat (Star WhiteSp) (Group n (plus Digit))))"

definition rangeTail :: "nat \<Rightarrow> regex" where
  "rangeTail n = Opt (rangeBody n)"

definition schemeTail :: regex where
  "schemeTail =
     Cat (Star WhiteSp)
      (Cat (Cls (Chars [215, 120]))
      (Cat (Star WhiteSp)
      (Cat (Group 3 (plus Digit))
           (rangeTail 4))))"

definition schemeRegex :: regex where
  "schemeRegex = Cat (Group 1 (plus Digit)) (Cat (rangeTail 2) schemeTail)"

text \<open>\<open>str.toLowerCase().startsWith('alt:')\<close>\<close>

definition startsWithAlt :: "jsstring \<Rightarrow> bool" where
  "startsWithAlt s \<longleftrightarrow> map toLowerCase (take 4 s) = str ''alt:''"

text \<open>\<open>str.replace(/\/side/i, '')\<close>: the first occurrence, from the left, is removed.\<close>

definition sideAt :: "jsstring \<Rightarrow> bool" where
  "sideAt s \<longleftrightarrow> map canonicalize (take 5 s) = map canonicalize (str ''/side'')"

fun removeSide :: "jsstring \<Rightarrow> jsstring" where
  "removeSide [] = []"
| "removeSide (x # xs) = (if sideAt (x # xs) then drop 5 (x # xs) else x # removeSide xs)"

text \<open>\<open>a || b\<close> on captures: an unset capture and the empty string are falsy.\<close>

definition orElse :: "jsstring option \<Rightarrow> jsstring option \<Rightarrow> jsstring option" where
  "orElse a b = (case a of None \<Rightarrow> b | Some s \<Rightarrow> if s = [] then b else Some s)"

definition parseIntOf :: "jsstring option \<Rightarrow> number" where
  "parseIntOf a = (case a of None \<Rightarrow> NaN | Some s \<Rightarrow> parseInt s)"

record rxTarget =
  maxSets :: number
  maxReps :: number

text \<open>The end of \<open>parseRx\<close>: match, and read the two numbers.\<close>

definition readScheme :: "jsstring \<Rightarrow> rxTarget option" where
  "readScheme s =
     (case exec schemeRegex s of
        None \<Rightarrow> None
      | Some m \<Rightarrow> Some \<lparr>maxSets = parseIntOf (orElse (m 2) (m 1)),
                        maxReps = parseIntOf (orElse (m 4) (m 3))\<rparr>)"

text \<open>The part of \<open>parseRx\<close> after the choice of the scheme: strip \<open>/side\<close>, then
  match and read.\<close>

definition parseScheme :: "jsstring \<Rightarrow> rxTarget option" where
  "parseScheme s = readScheme (removeSide s)"

text \<open>The scheme \<open>parseRx\<close> goes on with: after an \<open>alt:\<close> marker, the last of
  the schemes between commas, trimmed; else the whole string.\<close>

definition selectScheme :: "jsstring \<Rightarrow> jsstring" where
  "selectScheme s =
     (if startsWithAlt s then trim (last (split 44 [] (drop 4 s))) else s)"

text \<open>The argument is \<open>None\<close> for \<open>undefined\<close> (or \<open>null\<close>); the result is \<open>None\<close>
  for \<open>null\<close>.\<close>

definition parseRx :: "jsstring option \<Rightarrow> rxTarget option" where
  "parseRx rx =
     (case rx of
        None \<Rightarrow> None
      | Some s \<Rightarrow> if s = [] then None else parseScheme (selectScheme s))"

section \<open>The entries, the store and the clock\<close>

text \<open>
  A document of a user's \<open>entries\<close> collection. \<open>setGroups\<close> is its field \<open>sets\<close> (the
  groups are records with a field of that name) and \<open>entryNotes\<close> its field \<open>notes\<close>.
  \<open>date\<close> is \<open>None\<close> while the document holds no timestamp value. A collection or a
  query snapshot is a list of documents with their identifiers.
\<close>

record setGroup =
  sets :: number
  reps :: number
  weight :: number

record entry =
  lift :: string
  date :: "int option"
  setGroups :: "setGroup list"
  entryNotes :: jsstring
  session :: "string option"

type_synonym docs = "(string \<times> entry) list"

text \<open>What awaiting a query gives: the snapshot, or an exception.\<close>

datatype fetched = Failed | Snapshot docs

text \<open>
  The browser's clock and time zone: the instant \<open>new Date()\<close> reads (milliseconds since
  the epoch), what \<open>getFullYear\<close>, \<open>getMonth\<close> and \<open>getDate\<close> return for an instant,
  and the instant \<open>setHours(0, 0, 0, 0)\<close> moves an instant to.
  \<open>determineCurrentSession\<close> reads the clock twice: \<open>earlier\<close> is its first reading, the
  date it gives an entry that has none, and \<open>now\<close> its second, today. The other
  handlers read it once, as \<open>now\<close>.
\<close>

record clock =
  earlier :: int
  now :: int
  localDate :: "int \<Rightarrow> int \<times> nat \<times> nat"
  startOfDay :: "int \<Rightarrow> int"

text \<open>A session of the catalogue \<open>SESSIONS\<close>; only its identifier takes part in the
  rotation.\<close>

record sessionDef =
  sessionId :: string
  sessionName :: string

text \<open>The store's range filter \<open>where('date', '>=', bound)\<close>: the documents whose
  timestamp is at or after the bound; a document without a timestamp value has none that
  compares.\<close>

definition whereDateAtLeast :: "int \<Rightarrow> docs \<Rightarrow> docs" where
  "whereDateAtLeast bound ds =
     filter (\<lambda>(i, e). case date e of None \<Rightarrow> False | Some t \<Rightarrow> bound \<le> t) ds"

text \<open>How the store answers a write: it may fail; it names a new document and stamps it
  with the server's time.\<close>

record reply =
  writeFails :: bool
  newId :: string
  serverTime :: int

text \<open>\<open>doc(id).update({sets, notes})\<close> fails on a document that does not exist.\<close>

definition updateDoc :: "reply \<Rightarrow> string \<Rightarrow> setGroup list \<Rightarrow> jsstring \<Rightarrow> docs \<Rightarrow> docs option" where
  "updateDoc rp i gs n ds =
     (if writeFails rp \<or> i \<notin> fst ` set ds then None
      else Some (map (\<lambda>(j, e). if j = i then (j, e\<lparr>setGroups := gs, entryNotes := n\<rparr>) else (j, e)) ds))"

definition addDoc :: "reply \<Rightarrow> entry \<Rightarrow> docs \<Rightarrow> docs option" where
  "addDoc rp e ds =
     (if writeFails rp then None
      else Some (ds @ [(newId rp, e\<lparr>date := Some (serverTime rp)\<rparr>)]))"

section \<open>The state of the page\<close>

text \<open>
  The variables of the script, the entry form (\<open>rows\<close> are the set-group rows, each with
  the values of its three inputs, and \<open>notesInput\<close>), the user's collection, and the
  messages shown with \<open>alert\<close>. Rendering is left out.
\<close>

record row =
  inputSets :: jsstring
  inputReps :: jsstring
  inputWeight :: jsstring

record app =
  currentUser :: "string option"
  editingEntryId :: "string option"
  currentSessionIndex :: nat
  currentLiftId :: "string option"
  currentRx :: "jsstring option"
  todayEntries :: "string set"
  rows :: "row list"
  notesInput :: jsstring
  db :: docs
  alerts :: "string list"

text \<open>A string variable is truthy when it is set and not empty.\<close>

definition truthy :: "'a list option \<Rightarrow> bool" where
  "truthy v \<longleftrightarrow> (case v of None \<Rightarrow> False | Some s \<Rightarrow> s \<noteq> [])"

section \<open>determineCurrentSession\<close>

fun findIndex :: "('a \<Rightarrow> bool) \<Rightarrow> 'a list \<Rightarrow> nat option" where
  "findIndex P [] = None"
| "findIndex P (x # xs) =
     (if P x then Some 0 else case findIndex P xs of None \<Rightarrow> None | Some i \<Rightarrow> Some (Suc i))"

text \<open>\<open>lastDate\<close>: the entry's date, or a reading of the clock when it has none.\<close>

definition lastDateOf :: "clock \<Rightarrow> entry \<Rightarrow> int" where
  "lastDateOf clk e = (case date e of None \<Rightarrow> earlier clk | Some t \<Rightarrow> t)"

definition isToday :: "clock \<Rightarrow> int \<Rightarrow> bool" where
  "isToday clk lastDate \<longleftrightarrow>
     fst (localDate clk lastDate) = fst (localDate clk (now clk)) \<and>
     fst (snd (localDate clk lastDate)) = fst (snd (localDate clk (now clk))) \<and>
     snd (snd (localDate clk lastDate)) = snd (snd (localDate clk (now clk)))"

text \<open>The argument \<open>fetched\<close> is the outcome of the query for the newest entry
  (\<open>orderBy('date', 'desc').limit(1)\<close>); every exception ends in the \<open>catch\<close>, which
  returns 0.\<close>

definition determineCurrentSession :: "sessionDef list \<Rightarrow> clock \<Rightarrow> fetched \<Rightarrow> nat" where
  "determineCurrentSession SESSIONS clk snapshot =
     (case snapshot of
        Failed \<Rightarrow> 0
      | Snapshot [] \<Rightarrow> 0
      | Snapshot ((i, d) # _) \<Rightarrow>
          (if \<not> truthy (session d) then 0
           else case findIndex (\<lambda>s. Some (sessionId s) = session d) SESSIONS of
                  None \<Rightarrow> 0
                | Some lastIndex \<Rightarrow>
                    if isToday clk (lastDateOf clk d) then lastIndex
                    else (lastIndex + 1) mod length SESSIONS))"

text \<open>A session identifier of the catalogue, and the index \<open>findIndex\<close> gives it: the
  first session with that identifier.\<close>

definition inCatalog :: "sessionDef list \<Rightarrow> string \<Rightarrow> bool" where
  "inCatalog SESSIONS s \<longleftrightarrow> list_ex (\<lambda>x. sessionId x = s) SESSIONS"

definition catalogIndex :: "sessionDef list \<Rightarrow> string \<Rightarrow> nat \<Rightarrow> bool" where
  "catalogIndex SESSIONS s k \<longleftrightarrow>
     k < length SESSIONS \<and> sessionId (SESSIONS ! k) = s \<and>
     list_all (\<lambda>x. sessionId x \<noteq> s) (take k SESSIONS)"

section \<open>loadTodayEntries\<close>

text \<open>The query of \<open>loadTodayEntries\<close> on the collection, when the store answers.\<close>

definition todayQuery :: "clock \<Rightarrow> docs \<Rightarrow> fetched" where
  "todayQuery clk ds = Snapshot (whereDateAtLeast (startOfDay clk (now clk)) ds)"

definition loadTodayEntries :: "fetched \<Rightarrow> app \<Rightarrow> app" where
  "loadTodayEntries snapshot st =
     (case snapshot of
        Failed \<Rightarrow> st\<lparr>todayEntries := {}\<rparr>
      | Snapshot ds \<Rightarrow> st\<lparr>todayEntries := set (map (\<lambda>(i, e). lift e) ds)\<rparr>)"

section \<open>The form: history and auto-fill\<close>

definition emptyRow :: row where
  "emptyRow = \<lparr>inputSets = [], inputReps = [], inputWeight = []\<rparr>"

definition resetSetGroups :: "app \<Rightarrow> app" where
  "resetSetGroups st = st\<lparr>rows := [emptyRow], notesInput := []\<rparr>"

text \<open>The weight of the first group of the first entry, newest first, that has a group.\<close>

fun lastWeightOf :: "docs \<Rightarrow> number option" where
  "lastWeightOf [] = None"
| "lastWeightOf ((i, e) # ds) =
     (case setGroups e of [] \<Rightarrow> lastWeightOf ds | g # _ \<Rightarrow> Some (weight g))"

text \<open>\<open>toStr\<close> is the conversion of a Number to the string an input shows; the argument
  \<open>snapshot\<close> is the outcome of the query for the five newest entries of the lift.\<close>

definition loadHistory :: "(number \<Rightarrow> jsstring) \<Rightarrow> fetched \<Rightarrow> app \<Rightarrow> app" where
  "loadHistory toStr snapshot st =
     (if currentUser st = None then st
      else case snapshot of
        Failed \<Rightarrow> st
      | Snapshot ds \<Rightarrow>
          if ds = [] then st
          else (case lastWeightOf ds of
                  None \<Rightarrow> st
                | Some lastWeight \<Rightarrow>
                    (case rows st of
                       [] \<Rightarrow> st
                     | firstRow # others \<Rightarrow>
                         if inputWeight firstRow = []
                         then st\<lparr>rows := firstRow\<lparr>inputWeight := toStr lastWeight\<rparr> # others\<rparr>
                         else st)))"

text \<open>The auto-fill of sets and reps from the prescription; it runs right after
  \<open>resetSetGroups\<close>, so a first row is there.\<close>

definition applyRx :: "(number \<Rightarrow> jsstring) \<Rightarrow> jsstring option \<Rightarrow> app \<Rightarrow> app" where
  "applyRx toStr rx st =
     (case parseRx rx of
        None \<Rightarrow> st
      | Some parsed \<Rightarrow>
          (case rows st of
             [] \<Rightarrow> st
           | r # others \<Rightarrow>
               st\<lparr>rows := r\<lparr>inputSets := toStr (maxSets parsed),
                              inputReps := toStr (maxReps parsed)\<rparr> # others\<rparr>))"

text \<open>\<open>selectLift\<close>; \<open>LIFTS\<close> are the identifiers of the catalogue of lifts. A lift that
  is not in the catalogue ends the function with an exception at \<open>lift.name\<close>.\<close>

definition selectLift ::
  "string list \<Rightarrow> (number \<Rightarrow> jsstring) \<Rightarrow> string \<Rightarrow> jsstring option \<Rightarrow> fetched \<Rightarrow> app \<Rightarrow> app" where
  "selectLift LIFTS toStr liftId rx snapshot st =
     (let st1 = st\<lparr>currentLiftId := Some liftId, currentRx := rx\<rparr>
      in if liftId \<notin> set LIFTS then st1
         else let st2 = applyRx toStr rx (resetSetGroups st1)
              in if currentUser st2 \<noteq> None then loadHistory toStr snapshot st2 else st2)"

section \<open>The save handler\<close>

text \<open>One row of the form: \<open>parseInt\<close>, \<open>parseInt\<close>, \<open>parseFloat\<close>, and the test
  \<open>!sets || !reps || isNaN(weight)\<close>.\<close>

definition readRow :: "row \<Rightarrow> setGroup option" where
  "readRow r =
     (let s = parseInt (inputSets r); p = parseInt (inputReps r); w = parseFloat (inputWeight r)
      in if falsy s \<or> falsy p \<or> w = NaN then None
         else Some \<lparr>sets = s, reps = p, weight = w\<rparr>)"

definition fillMessage :: string where
  "fillMessage = ''Please fill in sets, reps, and weight for each group.''"

definition failMessage :: string where
  "failMessage = ''Failed to save. Please try again.''"

text \<open>The write inside \<open>try\<close>: the update of the entry being edited, or a new entry
  for the selected lift; \<open>None\<close> when an exception is thrown, which is before anything is
  changed.\<close>

definition writeEntry ::
  "sessionDef list \<Rightarrow> reply \<Rightarrow> string \<Rightarrow> setGroup list \<Rightarrow> app \<Rightarrow> app option" where
  "writeEntry SESSIONS rp liftId groups st =
     (case (if truthy (editingEntryId st) then editingEntryId st else None) of
        Some editing \<Rightarrow>
          (case updateDoc rp editing groups (trim (notesInput st)) (db st) of
             None \<Rightarrow> None
           | Some ds \<Rightarrow> Some (st\<lparr>db := ds, editingEntryId := None\<rparr>))
      | None \<Rightarrow>
          if SESSIONS \<noteq> [] \<and> length SESSIONS \<le> currentSessionIndex st then None
          else
            (case addDoc rp
                    \<lparr>lift = liftId, date = None, setGroups = groups,
                     entryNotes = trim (notesInput st),
                     session = (if SESSIONS \<noteq> []
                                then Some (sessionId (SESSIONS ! currentSessionIndex st))
                                else None)\<rparr>
                    (db st) of
               None \<Rightarrow> None
             | Some ds \<Rightarrow> Some (st\<lparr>db := ds, todayEntries := insert liftId (todayEntries st)\<rparr>)))"

definition saveClick ::
  "sessionDef list \<Rightarrow> (number \<Rightarrow> jsstring) \<Rightarrow> reply \<Rightarrow> fetched \<Rightarrow> app \<Rightarrow> app" where
  "saveClick SESSIONS toStr rp history st =
     (case (if currentUser st = None \<or> \<not> truthy (currentLiftId st) then None
            else currentLiftId st) of
        None \<Rightarrow> st
      | Some liftId \<Rightarrow>
          let groups = List.map_filter readRow (rows st);
              valid = list_all (\<lambda>r. readRow r \<noteq> None) (rows st)
          in if \<not> valid \<or> groups = [] then st\<lparr>alerts := alerts st @ [fillMessage]\<rparr>
             else (case writeEntry SESSIONS rp liftId groups st of
                     None \<Rightarrow> st\<lparr>alerts := alerts st @ [failMessage]\<rparr>
                   | Some st1 \<Rightarrow>
                       let st2 = loadHistory toStr history (resetSetGroups st1)
                       in if truthy (currentRx st2) then applyRx toStr (currentRx st2) st2
                          else st2))"

text \<open>What the update does to the collection: the groups and the notes of one document
  are replaced.\<close>

definition patchDoc :: "string \<Rightarrow> setGroup list \<Rightarrow> jsstring \<Rightarrow> docs \<Rightarrow> docs" where
  "patchDoc i gs n ds =
     map (\<lambda>(j, e). if j = i then (j, e\<lparr>setGroups := gs, entryNotes := n\<rparr>) else (j, e)) ds"

text \<open>The invariant of the data model, in the words of the specification: an entry has
  at least one group, and every group has at least one set, at least one rep and a weight
  that is not negative.\<close>

definition holdsAtLeast :: "number \<Rightarrow> rat \<Rightarrow> bool" where
  "holdsAtLeast n k \<longleftrightarrow> (case n of Num q \<Rightarrow> k \<le> q | Infinity \<Rightarrow> True | _ \<Rightarrow> False)"

definition groupInvariant :: "setGroup \<Rightarrow> bool" where
  "groupInvariant g \<longleftrightarrow> holdsAtLeast (sets g) 1 \<and> holdsAtLeast (reps g) 1 \<and> holdsAtLeast (weight g) 0"

definition entryInvariant :: "entry \<Rightarrow> bool" where
  "entryInvariant e \<longleftrightarrow> setGroups e \<noteq> [] \<and> list_all groupInvariant (setGroups e)"

section \<open>Examples\<close>

text \<open>The three sessions of the catalogue, a clock that reads calendar days in UTC, and
  states of the page, for the worked examples below.\<close>

definition exampleSessions :: "sessionDef list" where
  "exampleSessions =
     [\<lparr>sessionId = ''session_a'', sessionName = ''Session A''\<rparr>,
      \<lparr>sessionId = ''session_b'', sessionName = ''Session B''\<rparr>,
      \<lparr>sessionId = ''session_c'', sessionName = ''Session C''\<rparr>]"

definition exampleClock :: clock where
  "exampleClock =
     \<lparr>earlier = 1728046799990, now = 1728046800000,
      localDate = (\<lambda>t. (1970, 0, nat (t div 86400000))),
      startOfDay = (\<lambda>t. t - t mod 86400000)\<rparr>"

text \<open>A clock whose two readings lie on both sides of a midnight.\<close>

definition midnightClock :: clock where
  "midnightClock =
     \<lparr>earlier = 1728086399999, now = 1728086400000,
      localDate = (\<lambda>t. (1970, 0, nat (t div 86400000))),
      startOfDay = (\<lambda>t. t - t mod 86400000)\<rparr>"

definition exampleEntry :: "string \<Rightarrow> int option \<Rightarrow> string option \<Rightarrow> entry" where
  "exampleEntry l d s =
     \<lparr>lift = l, date = d,
      setGroups = [\<lparr>sets = Num 3, reps = Num 5, weight = Num 100\<rparr>],
      entryNotes = [], session = s\<rparr>"

definition exampleApp :: app where
  "exampleApp =
     \<lparr>currentUser = Some ''uid'', editingEntryId = None, currentSessionIndex = 1,
      currentLiftId = Some ''row'', currentRx = None, todayEntries = {},
      rows = [\<lparr>inputSets = str ''4'', inputReps = str ''6'', inputWeight = []\<rparr>],
      notesInput = str '' felt good '',
      db = [(''e1'', exampleEntry ''row'' (Some 1727956800000) (Some ''session_b'')),
            (''e2'', exampleEntry ''dips'' (Some 1727870400000) (Some ''session_a''))],
      alerts = []\<rparr>"

definition exampleReply :: reply where
  "exampleReply = \<lparr>writeFails = False, newId = ''e3'', serverTime = 1728046800001\<rparr>"

definition exampleToStr :: "number \<Rightarrow> jsstring" where
  "exampleToStr n = (if n = Num 100 then str ''100'' else [])"

definition editingApp :: app where
  "editingApp =
     exampleApp\<lparr>editingEntryId := Some ''e1'',
       rows := [\<lparr>inputSets = str ''4'', inputReps = str ''6'', inputWeight = str ''102.5''\<rparr>]\<rparr>"

definition negativeApp :: app where
  "negativeApp =
     exampleApp\<lparr>rows := [\<lparr>inputSets = str ''-3'', inputReps = str ''5'', inputWeight = str ''-10''\<rparr>],
       notesInput := []\<rparr>"

section \<open>Scheme texts\<close>

text \<open>
  The shape \<open>A[-B] x C[-D]\<close> as data: each side is one numeral or a range of two
  numerals around a hyphen; \<open>x\<close> is the letter x, in either case, or the
  multiplication sign; white space may stand on both sides of \<open>x\<close> and of a hyphen.
  \<open>upper\<close> is the numeral that counts: the second of a range, else the only one.
  \<open>valueOf\<close> is the number a decimal numeral denotes.
\<close>

datatype bound = Single jsstring | Range jsstring jsstring jsstring jsstring

definition digits :: "jsstring \<Rightarrow> bool" where
  "digits d \<longleftrightarrow> d \<noteq> [] \<and> list_all isDigit d"

definition spaces :: "jsstring \<Rightarrow> bool" where
  "spaces w \<longleftrightarrow> list_all isWhiteSpace w"

definition isTimes :: "nat \<Rightarrow> bool" where
  "isTimes x \<longleftrightarrow> x = 120 \<or> x = 88 \<or> x = 215"

fun boundText :: "bound \<Rightarrow> jsstring" where
  "boundText (Single a) = a"
| "boundText (Range a w1 w2 b) = a @ w1 @ [45] @ w2 @ b"

fun wfBound :: "bound \<Rightarrow> bool" where
  "wfBound (Single a) = digits a"
| "wfBound (Range a w1 w2 b) = (digits a \<and> spaces w1 \<and> spaces w2 \<and> digits b)"

fun upper :: "bound \<Rightarrow> jsstring" where
  "upper (Single a) = a"
| "upper (Range a w1 w2 b) = b"

definition schemeText :: "bound \<Rightarrow> jsstring \<Rightarrow> nat \<Rightarrow> jsstring \<Rightarrow> bound \<Rightarrow> jsstring" where
  "schemeText s w1 x w2 r = boundText s @ w1 @ [x] @ w2 @ boundText r"

fun decimal :: "jsstring \<Rightarrow> nat \<Rightarrow> nat" where
  "decimal [] acc = acc"
| "decimal (d # ds) acc = decimal ds (10 * acc + (d - 48))"

definition valueOf :: "jsstring \<Rightarrow> nat" where
  "valueOf ds = decimal ds 0"

text \<open>Schemes between commas, as \<open>alt:\<close> lists them; the marker and the suffix in
  any case of their letters; a scheme somewhere inside a string.\<close>

fun joinComma :: "jsstring list \<Rightarrow> jsstring" where
  "joinComma [] = []"
| "joinComma [p] = p"
| "joinComma (p # q # ps) = p @ [44] @ joinComma (q # ps)"

definition isAltMarker :: "jsstring \<Rightarrow> bool" where
  "isAltMarker m \<longleftrightarrow> map toLowerCase m = str ''alt:''"

definition isSideSuffix :: "jsstring \<Rightarrow> bool" where
  "isSideSuffix e \<longleftrightarrow> map toLowerCase e = str ''/side''"

definition isSchemeText :: "jsstring \<Rightarrow> bool" where
  "isSchemeText t \<longleftrightarrow>
     (\<exists>s w1 x w2 r. wfBound s \<and> spaces w1 \<and> isTimes x \<and> spaces w2 \<and> wfBound r \<and>
        t = schemeText s w1 x w2 r)"

definition hasScheme :: "jsstring \<Rightarrow> bool" where
  "hasScheme t \<longleftrightarrow> (\<exists>pre body post. t = pre @ body @ post \<and> isSchemeText body)"

section \<open>Reading a scheme without backtracking\<close>

text \<open>
  Proof devices. \<open>firstOf\<close> is the state a backtracking matcher commits to.
  \<open>scanScheme\<close> reads a scheme from the left, each numeral and each run of white space
  as long as it can be; it is shown below to be the first state of \<open>schemeRegex\<close> on
  every input, so that backtracking never changes what the expression captures.
\<close>

definition firstOf :: "'a list \<Rightarrow> 'a option" where
  "firstOf xs = (case xs of [] \<Rightarrow> None | x # _ \<Rightarrow> Some x)"

definition scanDigits :: "jsstring \<Rightarrow> (jsstring \<times> jsstring) option" where
  "scanDigits inp =
     (if takeWhile isDigit inp = [] then None
      else Some (takeWhile isDigit inp, dropWhile isDigit inp))"

definition scanRange :: "jsstring \<Rightarrow> (jsstring \<times> jsstring) option" where
  "scanRange inp =
     (case dropWhile isWhiteSpace inp of
        [] \<Rightarrow> None
      | x # xs \<Rightarrow> if x = 45 then scanDigits (dropWhile isWhiteSpace xs) else None)"

definition scanTimes :: "jsstring \<Rightarrow> jsstring option" where
  "scanTimes inp =
     (case dropWhile isWhiteSpace inp of
        [] \<Rightarrow> None
      | x # xs \<Rightarrow> if x = 215 \<or> x = 120 \<or> x = 88 then Some (dropWhile isWhiteSpace xs) else None)"

definition scanTail :: "captures \<Rightarrow> jsstring \<Rightarrow> (captures \<times> jsstring) option" where
  "scanTail c inp =
     (case scanTimes inp of
        None \<Rightarrow> None
      | Some r \<Rightarrow>
          (case scanDigits r of
             None \<Rightarrow> None
           | Some (C, r') \<Rightarrow>
               Some (case scanRange r' of
                       None \<Rightarrow> (c(3 := Some C), r')
                     | Some (D, r'') \<Rightarrow> (c(3 := Some C, 4 := Some D), r''))))"

definition scanScheme :: "captures \<Rightarrow> jsstring \<Rightarrow> (captures \<times> jsstring) option" where
  "scanScheme c inp =
     (case scanDigits inp of
        None \<Rightarrow> None
      | Some (A, r) \<Rightarrow>
          (case scanRange r of
             None \<Rightarrow> scanTail (c(1 := Some A)) r
           | Some (B, r') \<Rightarrow>
               (case scanTail (c(1 := Some A, 2 := Some B)) r' of
                  Some y \<Rightarrow> Some y
                | None \<Rightarrow> scanTail (c(1 := Some A)) r)))"

definition noDigitAhead :: "jsstring \<Rightarrow> bool" where
  "noDigitAhead rest \<longleftrightarrow> (case rest of [] \<Rightarrow> True | y # _ \<Rightarrow> \<not> isDigit y)"

text \<open>A suffix is inert when, after its leading white space, it does not go on with a
  digit, a hyphen or a multiplication sign: the scanner reads the same before it.\<close>

definition inert :: "jsstring \<Rightarrow> bool" where
  "inert j \<longleftrightarrow>
     (case dropWhile isWhiteSpace j of
        [] \<Rightarrow> True
      | y # _ \<Rightarrow> \<not> isDigit y \<and> y \<noteq> 45 \<and> \<not> isTimes y)"

section \<open>Rounding to a double\<close>

declare bitlen.simps [simp del]

lemma bitlen_0 [simp]: "bitlen 0 = 0" by (simp add: bitlen.simps)

lemma bitlen_less: "n < 2 ^ bitlen n"
proof (induction n rule: bitlen.induct)
  case (1 n)
  show ?case
  proof (cases "n = 0")
    case True then show ?thesis by simp
  next
    case False
    then have "n div 2 < 2 ^ bitlen (n div 2)" using 1 by simp
    then have "n < 2 * 2 ^ bitlen (n div 2)" by linarith
    then show ?thesis using False by (subst bitlen.simps) simp
  qed
qed

lemma bitlen_ge: "0 < n \<Longrightarrow> 2 ^ (bitlen n - 1) \<le> n"
proof (induction n rule: bitlen.induct)
  case (1 n)
  show ?case
  proof (cases "n div 2 = 0")
    case True
    then have "n = 1" using 1(2) by linarith
    then show ?thesis by (simp add: bitlen.simps)
  next
    case False
    then have ih: "2 ^ (bitlen (n div 2) - 1) \<le> n div 2" using 1 by simp
    have pos: "0 < bitlen (n div 2)" using False by (subst bitlen.simps) simp
    have "bitlen n = Suc (bitlen (n div 2))" using 1(2) by (subst bitlen.simps) simp
    then have "(2::nat) ^ (bitlen n - 1) = 2 * 2 ^ (bitlen (n div 2) - 1)"
      using pos by (cases "bitlen (n div 2)") simp_all
    also have "\<dots> \<le> 2 * (n div 2)" using ih by simp
    also have "\<dots> \<le> n" by simp
    finally show ?thesis .
  qed
qed

lemma bitlen_le: "n < 2 ^ k \<Longrightarrow> bitlen n \<le> k"
proof (rule ccontr)
  assume a: "n < 2 ^ k" "\<not> bitlen n \<le> k"
  then have "0 < n" by (cases "n = 0") simp_all
  then have "2 ^ (bitlen n - 1) \<le> n" by (rule bitlen_ge)
  moreover have "k \<le> bitlen n - 1" using a(2) by simp
  then have "(2::nat) ^ k \<le> 2 ^ (bitlen n - 1)" by (rule power_increasing) simp
  ultimately have "(2::nat) ^ k \<le> n" by (rule order_trans[rotated])
  then show False using a(1) by simp
qed

lemma bitlen_1 [simp]: "bitlen (Suc 0) = 1" by (simp add: bitlen.simps)

lemma toDouble_exact:
  assumes "n < 2 ^ 53"
  shows "toDouble n = Num (of_nat n)"
proof (cases "n = 0")
  case True then show ?thesis by (simp add: toDouble_def roundRatio_def)
next
  case False
  then have pos: "0 < n" by simp
  define L where "L = bitlen n"
  have L: "1 \<le> L" "L \<le> 53"
    using bitlen_le[OF assms] pos bitlen_less[of n] unfolding L_def
    by (cases "bitlen n"; simp)+
  have ge: "2 ^ (L - 1) \<le> n" using bitlen_ge[OF pos] by (simp add: L_def)
  have fl: "floorlog2 n 1 = int L - 1"
    using L ge by (simp add: floorlog2_def L_def[symmetric] nat_diff_distrib' Let_def)
  define k where "k = 53 - L"
  have e: "max (- 1074) (floorlog2 n 1 - 52) = - int k"
    unfolding fl using L by (simp add: k_def)
  show ?thesis
  proof (cases "k = 0")
    case True
    then show ?thesis using False e assms
      by (simp add: toDouble_def roundRatio_def Let_def)
  next
    case nz: False
    then show ?thesis using False e
      by (simp add: toDouble_def roundRatio_def Let_def)
  qed
qed

lemma toDouble_not_NaN: "toDouble n \<noteq> NaN"
  by (simp add: toDouble_def roundRatio_def Let_def)

lemma bitlen_gt: "2 ^ k \<le> n \<Longrightarrow> k < bitlen n"
proof (rule ccontr)
  assume a: "2 ^ k \<le> n" "\<not> k < bitlen n"
  then have "(2::nat) ^ bitlen n \<le> 2 ^ k" by (intro power_increasing) simp_all
  then show False using a(1) bitlen_less[of n] by linarith
qed

lemma floorlog2_one:
  assumes "0 < n"
  shows "floorlog2 n 1 = int (bitlen n) - 1"
proof -
  have "1 \<le> bitlen n" using bitlen_gt[of 0 n] assms by simp
  then show ?thesis
    using bitlen_ge[OF assms] by (simp add: floorlog2_def nat_diff_distrib' Let_def)
qed

lemma toDouble_large:
  assumes "2 ^ 53 \<le> n"
  shows "toDouble n =
    (let e = bitlen n - 53; f = n div 2 ^ e; r = n mod 2 ^ e;
         m = (if 2 ^ e < 2 * r \<or> (2 * r = 2 ^ e \<and> odd f) then f + 1 else f)
     in if 2 ^ 1024 \<le> m * 2 ^ e then Infinity else Num (of_nat (m * 2 ^ e)))"
proof -
  have pos: "0 < n" using assms by (cases "n = 0") simp_all
  have L: "53 < bitlen n" using assms by (rule bitlen_gt)
  have e: "max (- 1074) (floorlog2 n 1 - 52) = int (bitlen n - 53)"
    unfolding floorlog2_one[OF pos] using L by simp
  show ?thesis
    using pos unfolding toDouble_def roundRatio_def e by (simp add: Let_def)
qed

lemma toDouble_cases: "toDouble n = Infinity \<or> (\<exists>k. toDouble n = Num (of_nat k))"
proof (cases "n < 2 ^ 53")
  case True
  then show ?thesis using toDouble_exact by blast
next
  case False
  then have "2 ^ 53 \<le> n" by simp
  then show ?thesis by (simp only: toDouble_large Let_def split: if_split) blast
qed

lemma toDouble_overflow:
  assumes "2 ^ 1024 \<le> n"
  shows "toDouble n = Infinity"
proof -
  have big: "(2::nat) ^ 53 \<le> 2 ^ 1024" by (intro power_increasing) simp_all
  then have n53: "2 ^ 53 \<le> n" using assms by (rule order_trans)
  define e where "e = bitlen n - 53"
  have L: "1024 < bitlen n" using assms by (rule bitlen_gt)
  have pos: "0 < n" using n53 by (cases "n = 0") simp_all
  have "2 ^ (bitlen n - 1) \<le> n" using bitlen_ge[OF pos] .
  moreover have "bitlen n - 1 = 52 + e" using L by (simp add: e_def)
  ultimately have "2 ^ 52 * 2 ^ e \<le> n" by (simp add: power_add)
  then have f: "2 ^ 52 \<le> n div 2 ^ e"
    by (simp add: less_eq_div_iff_mult_less_eq)
  have e971: "972 \<le> e" using L by (simp add: e_def)
  have "(2::nat) ^ 1024 \<le> 2 ^ (52 + e)" using e971 by (intro power_increasing) simp_all
  also have "\<dots> = 2 ^ 52 * 2 ^ e" by (simp add: power_add)
  also have "\<dots> \<le> (n div 2 ^ e) * 2 ^ e" using f by simp
  finally have lo: "2 ^ 1024 \<le> (n div 2 ^ e) * 2 ^ e" .
  then have hi: "2 ^ 1024 \<le> (n div 2 ^ e + 1) * 2 ^ e"
    by (rule order_trans) simp
  show ?thesis
    using lo hi by (simp add: toDouble_large[OF n53] Let_def e_def[symmetric])
qed

lemmas double_eval = toDouble_def roundRatio_def floorlog2_def bitlen.simps negate_def

section \<open>The matcher: general facts\<close>

lemma firstOf_simps [simp]: "firstOf [] = None" "firstOf (x # xs) = Some x"
  by (simp_all add: firstOf_def)

lemma firstOf_append: "firstOf (xs @ ys) = (case firstOf xs of None \<Rightarrow> firstOf ys | Some x \<Rightarrow> Some x)"
  by (cases xs) simp_all

lemma exec_first:
  "exec r inp = (case firstOf (run r (\<lambda>_. None, inp)) of
      Some (c, rest) \<Rightarrow> Some c
    | None \<Rightarrow> (case inp of [] \<Rightarrow> None | _ # xs \<Rightarrow> exec r xs))"
  by (cases "run r (\<lambda>_. None, inp)") (auto split: list.splits)

lemma concat_map_concat: "concat (map f (concat xss)) = concat (map (\<lambda>xs. concat (map f xs)) xss)"
  by (induction xss) auto

lemma run_Cat_assoc: "run (Cat (Cat a b) d) s = run (Cat a (Cat b d)) s"
  by (simp add: concat_map_concat comp_def)

lemma star_le: "(c', rest) \<in> set (star k c inp) \<Longrightarrow> c' = c \<and> length rest \<le> length inp"
  by (induction inp) (auto split: if_splits)

lemma run_le: "(c', rest) \<in> set (run r (c, inp)) \<Longrightarrow> length rest \<le> length inp"
proof (induction r arbitrary: c c' inp rest)
  case (Cls k) then show ?case by (auto split: list.splits if_splits)
next
  case (Cat r1 r2)
  then obtain c1 m where "(c1, m) \<in> set (run r1 (c, inp))" "(c', rest) \<in> set (run r2 (c1, m))"
    by auto
  with Cat.IH show ?case by (meson le_trans)
next
  case (Star k) then show ?case using star_le by auto
next
  case (Opt r) then show ?case by auto
next
  case (Group n r) then show ?case by auto
qed

lemma star_head:
  "\<exists>ys. star k c inp = (c, dropWhile (inCls k) inp) # ys \<and>
        (\<forall>y\<in>set ys. \<exists>x xs. y = (c, x # xs) \<and> inCls k x)"
  by (induction inp) auto

lemma concat_map_Nil: "(\<And>y. y \<in> set ys \<Longrightarrow> f y = []) \<Longrightarrow> concat (map f ys) = []"
  by (induction ys) auto

lemma star_Cat:
  assumes "\<And>c x xs. inCls k x \<Longrightarrow> run r (c, x # xs) = []"
  shows "run (Cat (Star k) r) (c, inp) = run r (c, dropWhile (inCls k) inp)"
proof -
  obtain ys where ys: "star k c inp = (c, dropWhile (inCls k) inp) # ys"
    "\<forall>y\<in>set ys. \<exists>x xs. y = (c, x # xs) \<and> inCls k x"
    using star_head by blast
  have "concat (map (run r) ys) = []"
    using ys(2) assms by (intro concat_map_Nil) auto
  then show ?thesis using ys(1) by simp
qed

lemma run_plus:
  "run (plus k) (c, inp) = (case inp of [] \<Rightarrow> [] | x # xs \<Rightarrow> if inCls k x then star k c xs else [])"
  by (simp add: plus_def split: list.splits)

lemma take_takeWhile: "take (length inp - length (dropWhile P inp)) inp = takeWhile P inp"
proof -
  have "length (takeWhile P inp) + length (dropWhile P inp) = length inp"
    by (metis length_append takeWhile_dropWhile_id)
  then have "length inp - length (dropWhile P inp) = length (takeWhile P inp)" by simp
  then show ?thesis by (simp add: takeWhile_eq_take[symmetric])
qed

lemma group_plus_head:
  "run (Group n (plus k)) (c, inp) =
     (if takeWhile (inCls k) inp = [] then []
      else (c(n := Some (takeWhile (inCls k) inp)), dropWhile (inCls k) inp) #
           drop 1 (run (Group n (plus k)) (c, inp)))"
proof (cases inp)
  case Nil then show ?thesis by (simp add: run_plus)
next
  case (Cons x xs)
  show ?thesis
  proof (cases "inCls k x")
    case False then show ?thesis using Cons by (simp add: run_plus)
  next
    case True
    obtain ys where ys: "star k c xs = (c, dropWhile (inCls k) xs) # ys"
      using star_head by blast
    have "take (length (x # xs) - length (dropWhile (inCls k) (x # xs))) (x # xs) = takeWhile (inCls k) (x # xs)"
      by (rule take_takeWhile)
    then show ?thesis using Cons True ys by (simp add: run_plus)
  qed
qed

lemma group_plus_tail:
  "y \<in> set (drop 1 (run (Group n (plus k)) (c, inp))) \<Longrightarrow> \<exists>c' x xs. y = (c', x # xs) \<and> inCls k x"
proof (cases inp)
  case Nil
  assume "y \<in> set (drop 1 (run (Group n (plus k)) (c, inp)))"
  then show ?thesis using Nil by (simp add: run_plus)
next
  case (Cons x xs)
  assume a: "y \<in> set (drop 1 (run (Group n (plus k)) (c, inp)))"
  obtain ys where ys: "star k c xs = (c, dropWhile (inCls k) xs) # ys"
     "\<forall>y\<in>set ys. \<exists>x xs. y = (c, x # xs) \<and> inCls k x"
    using star_head by blast
  show ?thesis using a Cons ys by (auto simp: run_plus split: if_splits)
qed

lemma group_plus_Cat:
  assumes "\<And>c x xs. inCls k x \<Longrightarrow> run r (c, x # xs) = []"
  shows "run (Cat (Group n (plus k)) r) (c, inp) =
     (if takeWhile (inCls k) inp = [] then []
      else run r (c(n := Some (takeWhile (inCls k) inp)), dropWhile (inCls k) inp))"
proof (cases "takeWhile (inCls k) inp = []")
  case True
  then show ?thesis using group_plus_head[of n k c inp] by simp
next
  case False
  let ?t = "drop 1 (run (Group n (plus k)) (c, inp))"
  have h: "run (Group n (plus k)) (c, inp) =
      (c(n := Some (takeWhile (inCls k) inp)), dropWhile (inCls k) inp) # ?t"
    using group_plus_head[of n k c inp] False by simp
  have "concat (map (run r) ?t) = []"
    using group_plus_tail[of _ n k c inp] assms by (intro concat_map_Nil) blast
  then have "concat (map (run r) (run (Group n (plus k)) (c, inp))) =
      run r (c(n := Some (takeWhile (inCls k) inp)), dropWhile (inCls k) inp)"
    by (subst h) simp
  then show ?thesis using False by simp
qed

lemma inCls_dash [simp]: "inCls (Chars [45]) x \<longleftrightarrow> x = 45"
  by (auto simp: canonicalize_def)

lemma inCls_times [simp]: "inCls (Chars [215, 120]) x \<longleftrightarrow> x = 215 \<or> x = 120 \<or> x = 88"
  by (auto simp: canonicalize_def)

declare inCls.simps(3) [simp del]

lemma space_not_dash: "isWhiteSpace x \<Longrightarrow> x \<noteq> 45"
  by (auto simp: isWhiteSpace_def)

lemma inCls_Digit: "inCls Digit = isDigit" by (rule ext) simp
lemma inCls_WhiteSp: "inCls WhiteSp = isWhiteSpace" by (rule ext) simp

lemma digit_not_space: "isDigit x \<Longrightarrow> \<not> isWhiteSpace x"
  by (auto simp: isDigit_def isWhiteSpace_def)

lemma run_Cls_Cat: "run (Cat (Cls k) r) (c, inp) =
   (case inp of [] \<Rightarrow> [] | x # xs \<Rightarrow> if inCls k x then run r (c, xs) else [])"
  by (simp split: list.splits)

lemma run_group_plus_reject: "\<not> inCls k x \<Longrightarrow> run (Group n (plus k)) (c, x # xs) = []"
  by (simp add: run_plus)

lemma run_group_plus_Cat_reject: "\<not> inCls k x \<Longrightarrow> run (Cat (Group n (plus k)) r) (c, x # xs) = []"
  by (simp add: run_plus)

lemma run_rangeBody_Cat:
  assumes "\<And>c x xs. isDigit x \<Longrightarrow> run r (c, x # xs) = []"
  shows "run (Cat (rangeBody n) r) (c, inp) =
     (case scanRange inp of None \<Rightarrow> [] | Some (B, r') \<Rightarrow> run r (c(n := Some B), r'))"
proof -
  have a: "run (Cat (rangeBody n) r) (c, inp) =
      run (Cat (Star WhiteSp) (Cat (Cls (Chars [45])) (Cat (Star WhiteSp) (Cat (Group n (plus Digit)) r)))) (c, inp)"
    unfolding rangeBody_def by (simp add: concat_map_concat comp_def del: run.simps(1,3,4,5))
  have rej1: "\<And>c x xs. inCls WhiteSp x \<Longrightarrow>
      run (Cat (Cls (Chars [45])) (Cat (Star WhiteSp) (Cat (Group n (plus Digit)) r))) (c, x # xs) = []"
    using space_not_dash by (auto simp del: run.simps simp: run_Cls_Cat)
  have rej2: "\<And>c x xs. inCls WhiteSp x \<Longrightarrow> run (Cat (Group n (plus Digit)) r) (c, x # xs) = []"
    using digit_not_space by (intro run_group_plus_Cat_reject) auto
  have rej3: "\<And>c x xs. inCls Digit x \<Longrightarrow> run r (c, x # xs) = []"
    using assms by simp
  show ?thesis
    unfolding a
    apply (subst star_Cat[OF rej1], assumption)
    apply (subst run_Cls_Cat)
    apply (subst star_Cat[OF rej2], assumption)
    apply (subst group_plus_Cat[OF rej3], assumption)
    apply (cases "dropWhile isWhiteSpace inp")
     apply (simp_all add: scanRange_def scanDigits_def inCls_Digit inCls_WhiteSp del: dropWhile_eq_Nil_conv)
    done
qed

declare run.simps [simp del]

lemma rangeBody_unfold:
  "run (rangeBody n) (c, inp) =
     (case dropWhile isWhiteSpace inp of
        [] \<Rightarrow> []
      | x # xs \<Rightarrow> if x = 45 then run (Group n (plus Digit)) (c, dropWhile isWhiteSpace xs) else [])"
proof -
  have rej1: "\<And>c x xs. inCls WhiteSp x \<Longrightarrow>
      run (Cat (Cls (Chars [45])) (Cat (Star WhiteSp) (Group n (plus Digit)))) (c, x # xs) = []"
    using space_not_dash by (auto simp: run_Cls_Cat)
  have rej2: "\<And>c x xs. inCls WhiteSp x \<Longrightarrow> run (Group n (plus Digit)) (c, x # xs) = []"
    using digit_not_space by (intro run_group_plus_reject) auto
  show ?thesis
    unfolding rangeBody_def
    apply (subst star_Cat[OF rej1], assumption)
    apply (subst run_Cls_Cat)
    apply (subst star_Cat[OF rej2], assumption)
    apply (cases "dropWhile isWhiteSpace inp")
     apply (simp_all add: inCls_WhiteSp del: dropWhile_eq_Nil_conv)
    done
qed

lemma first_group_plus:
  "firstOf (run (Group n (plus Digit)) (c, inp)) =
     (case scanDigits inp of None \<Rightarrow> None | Some (B, r) \<Rightarrow> Some (c(n := Some B), r))"
  by (subst group_plus_head) (simp add: scanDigits_def inCls_Digit)

lemma first_rangeBody:
  "firstOf (run (rangeBody n) (c, inp)) =
     (case scanRange inp of None \<Rightarrow> None | Some (B, r) \<Rightarrow> Some (c(n := Some B), r))"
  by (cases "dropWhile isWhiteSpace inp")
     (simp_all add: rangeBody_unfold scanRange_def first_group_plus del: dropWhile_eq_Nil_conv)

lemma length_dropWhile_less: "dropWhile P inp = x # xs \<Longrightarrow> length xs < length inp"
  by (metis length_dropWhile_le length_Cons less_eq_Suc_le)

lemma rangeBody_progress:
  assumes "(c', rest) \<in> set (run (rangeBody n) (c, inp))"
  shows "length rest < length inp"
proof (cases "dropWhile isWhiteSpace inp")
  case Nil
  then show ?thesis using assms by (simp add: rangeBody_unfold del: dropWhile_eq_Nil_conv)
next
  case (Cons x xs)
  with assms have "(c', rest) \<in> set (run (Group n (plus Digit)) (c, dropWhile isWhiteSpace xs))"
    by (simp add: rangeBody_unfold split: if_splits)
  then have "length rest \<le> length (dropWhile isWhiteSpace xs)" by (rule run_le)
  also have "\<dots> \<le> length xs" by (rule length_dropWhile_le)
  also have "\<dots> < length inp" using Cons by (rule length_dropWhile_less)
  finally show ?thesis .
qed

lemma run_rangeTail:
  "run (rangeTail n) (c, inp) = run (rangeBody n) (c, inp) @ [(c, inp)]"
proof -
  have "filter (\<lambda>(c', rest). length rest < length inp) (run (rangeBody n) (c, inp))
        = run (rangeBody n) (c, inp)"
    using rangeBody_progress by (intro filter_True) auto
  then show ?thesis by (simp add: rangeTail_def run.simps)
qed

lemma run_rangeTail_Cat:
  "run (Cat (rangeTail n) r) (c, inp) = run (Cat (rangeBody n) r) (c, inp) @ run r (c, inp)"
  by (simp add: run.simps(2) run_rangeTail)

lemma first_rangeTail:
  "firstOf (run (rangeTail n) (c, inp)) =
     Some (case scanRange inp of None \<Rightarrow> (c, inp) | Some (D, r) \<Rightarrow> (c(n := Some D), r))"
  by (simp add: run_rangeTail firstOf_append first_rangeBody split: option.splits)

lemma firstOf_concat_map:
  "xs = x # ys \<Longrightarrow> f x \<noteq> [] \<Longrightarrow> firstOf (concat (map f xs)) = firstOf (f x)"
  by (cases "f x") simp_all

lemma first_bound3:
  "firstOf (run (Cat (Group 3 (plus Digit)) (rangeTail 4)) (c, inp)) =
     (case scanDigits inp of
        None \<Rightarrow> None
      | Some (C, r) \<Rightarrow> firstOf (run (rangeTail 4) (c(3 := Some C), r)))"
proof (cases "takeWhile isDigit inp = []")
  case True
  then have "run (Group 3 (plus Digit)) (c, inp) = []"
    by (subst group_plus_head) (simp add: inCls_Digit)
  then show ?thesis using True by (simp add: run.simps(2) scanDigits_def)
next
  case False
  let ?x = "(c(3 := Some (takeWhile isDigit inp)), dropWhile isDigit inp)"
  have h: "run (Group 3 (plus Digit)) (c, inp) = ?x # drop 1 (run (Group 3 (plus Digit)) (c, inp))"
    using False by (subst group_plus_head) (simp add: inCls_Digit)
  have ne: "run (rangeTail 4) ?x \<noteq> []" by (simp add: run_rangeTail)
  have "firstOf (concat (map (run (rangeTail 4)) (run (Group 3 (plus Digit)) (c, inp))))
        = firstOf (run (rangeTail 4) ?x)"
    using h ne by (rule firstOf_concat_map)
  then show ?thesis using False by (simp add: run.simps(2) scanDigits_def)
qed

lemma run_schemeTail:
  "run schemeTail (c, inp) =
     (case scanTimes inp of
        None \<Rightarrow> []
      | Some r \<Rightarrow> run (Cat (Group 3 (plus Digit)) (rangeTail 4)) (c, r))"
proof -
  have rej1: "\<And>c x xs. inCls WhiteSp x \<Longrightarrow>
      run (Cat (Cls (Chars [215, 120])) (Cat (Star WhiteSp) (Cat (Group 3 (plus Digit)) (rangeTail 4)))) (c, x # xs) = []"
    by (auto simp: run_Cls_Cat isWhiteSpace_def)
  have rej2: "\<And>c x xs. inCls WhiteSp x \<Longrightarrow>
      run (Cat (Group 3 (plus Digit)) (rangeTail 4)) (c, x # xs) = []"
    using digit_not_space by (intro run_group_plus_Cat_reject) auto
  show ?thesis
    unfolding schemeTail_def
    apply (subst star_Cat[OF rej1], assumption)
    apply (subst run_Cls_Cat)
    apply (subst star_Cat[OF rej2], assumption)
    apply (cases "dropWhile isWhiteSpace inp")
     apply (simp_all add: inCls_WhiteSp scanTimes_def del: dropWhile_eq_Nil_conv)
    done
qed

lemma first_schemeTail: "firstOf (run schemeTail (c, inp)) = scanTail c inp"
  by (simp add: run_schemeTail scanTail_def first_bound3 first_rangeTail
      split: option.splits)

lemma digit_not_times: "isDigit x \<Longrightarrow> x \<noteq> 215 \<and> x \<noteq> 120 \<and> x \<noteq> 88 \<and> x \<noteq> 45"
  by (auto simp: isDigit_def)

lemma schemeTail_rejects_digit: "isDigit x \<Longrightarrow> run schemeTail (c, x # xs) = []"
  using digit_not_times[of x] digit_not_space[of x]
  by (simp add: run_schemeTail scanTimes_def)

lemma scanRange_digit: "isDigit x \<Longrightarrow> scanRange (x # xs) = None"
  using digit_not_times[of x] digit_not_space[of x]
  by (simp add: scanRange_def)

lemma run_bound2:
  "run (Cat (rangeTail 2) schemeTail) (c, inp) =
     (case scanRange inp of None \<Rightarrow> [] | Some (B, r) \<Rightarrow> run schemeTail (c(2 := Some B), r))
     @ run schemeTail (c, inp)"
  by (simp add: run_rangeTail_Cat run_rangeBody_Cat[OF schemeTail_rejects_digit])

lemma run_schemeRegex:
  "run schemeRegex (c, inp) =
     (case scanDigits inp of
        None \<Rightarrow> []
      | Some (A, r) \<Rightarrow> run (Cat (rangeTail 2) schemeTail) (c(1 := Some A), r))"
proof -
  have rej: "\<And>c x xs. inCls Digit x \<Longrightarrow> run (Cat (rangeTail 2) schemeTail) (c, x # xs) = []"
    by (simp add: run_bound2 scanRange_digit schemeTail_rejects_digit)
  show ?thesis
    unfolding schemeRegex_def
    by (subst group_plus_Cat[OF rej], assumption) (simp add: scanDigits_def inCls_Digit)
qed

lemma first_schemeRegex: "firstOf (run schemeRegex (c, inp)) = scanScheme c inp"
  by (simp add: run_schemeRegex run_bound2 scanScheme_def firstOf_append first_schemeTail
      split: option.splits)

lemma noDigitAhead_simps [simp]:
  "noDigitAhead []" "noDigitAhead (y # ys) \<longleftrightarrow> \<not> isDigit y"
  by (simp_all add: noDigitAhead_def)

lemma noDigitAhead_spaces: "spaces w \<Longrightarrow> noDigitAhead rest \<Longrightarrow> noDigitAhead (w @ rest)"
  using digit_not_space by (cases w) (auto simp: spaces_def)

lemma takeWhile_digits: "list_all isDigit d \<Longrightarrow> noDigitAhead rest \<Longrightarrow> takeWhile isDigit (d @ rest) = d"
  by (induction d) (auto simp: noDigitAhead_def split: list.splits)

lemma dropWhile_digits: "list_all isDigit d \<Longrightarrow> dropWhile isDigit (d @ rest) = dropWhile isDigit rest"
  by (induction d) auto

lemma dropWhile_noDigit: "noDigitAhead rest \<Longrightarrow> dropWhile isDigit rest = rest"
  by (cases rest) auto

lemma scanDigits_app:
  "digits d \<Longrightarrow> noDigitAhead rest \<Longrightarrow> scanDigits (d @ rest) = Some (d, rest)"
  by (simp add: scanDigits_def digits_def takeWhile_digits dropWhile_digits dropWhile_noDigit)

lemma dropWhile_spaces: "spaces w \<Longrightarrow> dropWhile isWhiteSpace (w @ rest) = dropWhile isWhiteSpace rest"
  by (induction w) (auto simp: spaces_def)

lemma dropWhile_space_digits: "digits d \<Longrightarrow> dropWhile isWhiteSpace (d @ rest) = d @ rest"
  using digit_not_space by (cases d) (auto simp: digits_def)

lemma dropWhile_spaces_digits:
  "spaces w \<Longrightarrow> digits d \<Longrightarrow> dropWhile isWhiteSpace (w @ d @ rest) = d @ rest"
  by (simp add: dropWhile_spaces dropWhile_space_digits)

lemma dash_not_space: "\<not> isWhiteSpace 45"
  by (simp add: isWhiteSpace_def)

lemma digits_ne: "digits d \<Longrightarrow> d \<noteq> []"
  by (simp add: digits_def)

lemma scanRange_app:
  "spaces w1 \<Longrightarrow> spaces w2 \<Longrightarrow> digits b \<Longrightarrow> noDigitAhead rest \<Longrightarrow>
   scanRange (w1 @ 45 # w2 @ b @ rest) = Some (b, rest)"
  by (simp add: scanRange_def dropWhile_spaces dash_not_space dropWhile_space_digits scanDigits_app)

lemma scanRange_times:
  "spaces w \<Longrightarrow> isTimes x \<Longrightarrow> scanRange (w @ x # rest) = None"
  by (auto simp: scanRange_def dropWhile_spaces isTimes_def isWhiteSpace_def)

lemma scanRange_Nil [simp]: "scanRange [] = None"
  by (simp add: scanRange_def)

lemma scanTimes_app:
  "spaces w1 \<Longrightarrow> isTimes x \<Longrightarrow> spaces w2 \<Longrightarrow> digits d \<Longrightarrow>
   scanTimes (w1 @ x # w2 @ d @ rest) = Some (d @ rest)"
  by (auto simp: scanTimes_def dropWhile_spaces dropWhile_space_digits isTimes_def isWhiteSpace_def)

lemmas scan_end =
  scanDigits_app[where rest="[]", simplified]
  scanRange_app[where rest="[]", simplified]
  scanTimes_app[where rest="[]", simplified]

lemma times_noDigit: "isTimes x \<Longrightarrow> \<not> isDigit x"
  by (auto simp: isTimes_def isDigit_def)

lemma scanScheme_text:
  assumes "wfBound s" "spaces w1" "isTimes x" "spaces w2" "wfBound r"
  shows "\<exists>m. scanScheme (\<lambda>_. None) (schemeText s w1 x w2 r) = Some (m, [])
       \<and> orElse (m 2) (m 1) = Some (upper s) \<and> orElse (m 4) (m 3) = Some (upper r)"
proof -
  have nd: "noDigitAhead (w1 @ x # w2 @ boundText r)"
    using assms by (intro noDigitAhead_spaces) (simp_all add: times_noDigit)
  have nd2: "\<And>w rest. spaces w \<Longrightarrow> noDigitAhead (w @ 45 # rest)"
    by (intro noDigitAhead_spaces) (simp_all add: isDigit_def)
  show ?thesis
  proof (cases s; cases r)
    fix a b assume "s = Single a" "r = Single b"
    then show ?thesis using assms nd
      by (simp add: schemeText_def scanScheme_def scanTail_def scanDigits_app scanRange_times
           scanRange_app scanTimes_app scan_end orElse_def digits_ne)
  next
    fix a b v1 v2 b' assume "s = Single a" "r = Range b v1 v2 b'"
    then show ?thesis using assms nd nd2
      by (simp add: schemeText_def scanScheme_def scanTail_def scanDigits_app scanRange_times
           scanRange_app scanTimes_app scan_end orElse_def digits_ne)
  next
    fix a u1 u2 a' b assume "s = Range a u1 u2 a'" "r = Single b"
    then show ?thesis using assms nd nd2
      by (simp add: schemeText_def scanScheme_def scanTail_def scanDigits_app scanRange_times
           scanRange_app scanTimes_app scan_end orElse_def digits_ne)
  next
    fix a u1 u2 a' b v1 v2 b' assume "s = Range a u1 u2 a'" "r = Range b v1 v2 b'"
    then show ?thesis using assms nd nd2
      by (simp add: schemeText_def scanScheme_def scanTail_def scanDigits_app scanRange_times
           scanRange_app scanTimes_app scan_end orElse_def digits_ne)
  qed
qed

lemma digit_value: "isDigit x \<Longrightarrow> digitValue x = x - 48"
  by (auto simp: isDigit_def digitValue_def)

lemma digit_value_less: "isDigit x \<Longrightarrow> digitValue x < 10"
  by (auto simp: isDigit_def digitValue_def)

lemma foldl_decimal:
  "list_all isDigit d \<Longrightarrow> foldl (\<lambda>acc c. acc * 10 + digitValue c) a d = decimal d a"
  by (induction d arbitrary: a) (simp_all add: digit_value mult.commute)

lemma takeWhile_radix: "list_all isDigit d \<Longrightarrow> takeWhile (\<lambda>c. digitValue c < 10) d = d"
  by (induction d) (auto simp: digit_value_less)

lemma digit_canon: "isDigit x \<Longrightarrow> canonicalize x = x \<and> toLowerCase x = x"
  by (auto simp: isDigit_def canonicalize_def toLowerCase_def)

lemma parseInt_digits:
  assumes "digits d"
  shows "parseInt d = toDouble (valueOf d)"
proof -
  obtain x xs where d: "d = x # xs" "isDigit x" "list_all isDigit xs"
    using assms by (cases d) (auto simp: digits_def)
  have ws: "dropWhile isWhiteSpace d = d"
    using d digit_not_space by simp
  have sign: "take 1 d \<noteq> [43]" "take 1 d \<noteq> [45]"
    using d by (auto simp: isDigit_def)
  have hex: "map canonicalize (take 2 d) \<noteq> [48, 88]"
  proof (cases xs)
    case Nil then show ?thesis using d by simp
  next
    case (Cons y ys)
    then have "isDigit y" using d by simp
    then have "canonicalize y \<noteq> 88" by (auto simp: isDigit_def canonicalize_def)
    then show ?thesis using d Cons by simp
  qed
  have all: "list_all isDigit d" using d by simp
  have ne: "d \<noteq> []" using d by simp
  show ?thesis
    unfolding parseInt_def Let_def ws
    by (simp only: sign hex ne if_False simp_thms takeWhile_radix[OF all] radixValue_def
         foldl_decimal[OF all] valueOf_def)
qed

lemma startsWithAlt_digit: "isDigit x \<Longrightarrow> \<not> startsWithAlt (x # xs)"
  by (auto simp: startsWithAlt_def str_def digit_canon isDigit_def)

lemma sideAt_slash: "sideAt (x # xs) \<Longrightarrow> x = 47"
  by (auto simp: sideAt_def str_def canonicalize_def split: if_splits)

lemma removeSide_id: "47 \<notin> set s \<Longrightarrow> removeSide s = s"
  by (induction s) (auto dest: sideAt_slash)

lemma digits_no_slash: "digits d \<Longrightarrow> 47 \<notin> set d"
  by (auto simp: digits_def list_all_iff isDigit_def)

lemma spaces_no_slash: "spaces w \<Longrightarrow> 47 \<notin> set w"
  by (auto simp: spaces_def list_all_iff isWhiteSpace_def)

lemma bound_no_slash: "wfBound s \<Longrightarrow> 47 \<notin> set (boundText s)"
  by (cases s) (auto dest: digits_no_slash spaces_no_slash)

lemma bound_start: "wfBound s \<Longrightarrow> \<exists>x xs. boundText s = x # xs \<and> isDigit x"
proof (cases s)
  case (Single a)
  assume "wfBound s"
  then show ?thesis using Single by (cases a) (auto simp: digits_def)
next
  case (Range a w1 w2 b)
  assume "wfBound s"
  then show ?thesis using Range by (cases a) (auto simp: digits_def)
qed

lemma upper_digits: "wfBound s \<Longrightarrow> digits (upper s)"
  by (cases s) auto

lemma parseScheme_text:
  assumes "wfBound s" "spaces w1" "isTimes x" "spaces w2" "wfBound r"
  shows "parseScheme (schemeText s w1 x w2 r) =
         Some \<lparr>maxSets = toDouble (valueOf (upper s)), maxReps = toDouble (valueOf (upper r))\<rparr>"
proof -
  let ?t = "schemeText s w1 x w2 r"
  have "47 \<notin> set ?t"
    using assms bound_no_slash spaces_no_slash
    by (auto simp: schemeText_def isTimes_def)
  then have rs: "removeSide ?t = ?t" by (rule removeSide_id)
  obtain m where m: "scanScheme (\<lambda>_. None) ?t = Some (m, [])"
    "orElse (m 2) (m 1) = Some (upper s)" "orElse (m 4) (m 3) = Some (upper r)"
    using scanScheme_text[OF assms] by blast
  have "exec schemeRegex ?t = Some m"
    by (subst exec_first) (simp add: first_schemeRegex m(1))
  then show ?thesis
    using m(2,3) assms(1,5)
    by (simp add: parseScheme_def readScheme_def rs parseIntOf_def parseInt_digits upper_digits)
qed

section \<open>Choosing the scheme: alternatives and trimming\<close>

lemma split_app: "sep \<notin> set p \<Longrightarrow> split sep acc (p @ rest) = split sep (rev p @ acc) rest"
  by (induction p arbitrary: acc) auto

lemma split_joinComma:
  "list_all (\<lambda>p. 44 \<notin> set p) (p # ps) \<Longrightarrow>
   split 44 acc (joinComma (p # ps)) = (rev acc @ p) # ps"
proof (induction ps arbitrary: p acc)
  case Nil
  then show ?case using split_app[of 44 p acc "[]"] by simp
next
  case (Cons q ps)
  then have "split 44 acc (p @ 44 # joinComma (q # ps)) = (rev acc @ p) # split 44 [] (joinComma (q # ps))"
    by (simp add: split_app)
  then show ?case using Cons by simp
qed

lemma last_split_joinComma:
  assumes "list_all (\<lambda>p. 44 \<notin> set p) (ps @ [q])"
  shows "last (split 44 [] (joinComma (ps @ [q]))) = q"
proof (cases ps)
  case Nil
  then show ?thesis using assms split_joinComma[of q "[]" "[]"] by simp
next
  case (Cons p ps')
  then show ?thesis using assms split_joinComma[of p "ps' @ [q]" "[]"] by simp
qed

lemma altMarker_length: "isAltMarker m \<Longrightarrow> length m = 4"
  by (auto simp: isAltMarker_def str_def dest: arg_cong[where f=length])

lemma parseRx_alt:
  assumes "isAltMarker m" "list_all (\<lambda>p. 44 \<notin> set p) (ps @ [q])"
  shows "parseRx (Some (m @ joinComma (ps @ [q]))) = parseScheme (trim q)"
proof -
  have len: "length m = 4" using assms(1) by (rule altMarker_length)
  then have "m \<noteq> []" by auto
  then have ne: "m @ joinComma (ps @ [q]) \<noteq> []" by simp
  have alt: "startsWithAlt (m @ joinComma (ps @ [q]))"
    using assms(1) len by (simp add: startsWithAlt_def isAltMarker_def)
  have "drop 4 (m @ joinComma (ps @ [q])) = joinComma (ps @ [q])" using len by simp
  then have "selectScheme (m @ joinComma (ps @ [q])) = trim q"
    using alt last_split_joinComma[OF assms(2)] by (simp add: selectScheme_def)
  then show ?thesis using ne by (simp add: parseRx_def del: append_is_Nil_conv)
qed

lemma trim_spaces:
  assumes "spaces u1" "spaces u2" "t = x # xs" "t = ys @ [y]" "\<not> isWhiteSpace x" "\<not> isWhiteSpace y"
  shows "trim (u1 @ t @ u2) = t"
proof -
  have a: "dropWhile isWhiteSpace (u1 @ t @ u2) = t @ u2"
    using assms(1,3,5) by (simp add: dropWhile_spaces)
  have "rev (t @ u2) = rev u2 @ y # rev ys" using assms(4) by simp
  moreover have "spaces (rev u2)" using assms(2) by (simp add: spaces_def)
  ultimately have "dropWhile isWhiteSpace (rev (t @ u2)) = y # rev ys"
    using assms(6) by (simp add: dropWhile_spaces)
  then show ?thesis using a assms(4) by (simp add: trim_def)
qed

lemma bound_end: "wfBound s \<Longrightarrow> \<exists>ys y. boundText s = ys @ [y] \<and> isDigit y"
proof (cases s)
  case (Single a)
  assume "wfBound s"
  then have "a \<noteq> []" "list_all isDigit a" using Single by (auto simp: digits_def)
  then have "a = butlast a @ [last a] \<and> isDigit (last a)"
    by (metis append_butlast_last_id last_in_set list_all_iff)
  then show ?thesis using Single by auto
next
  case (Range a w1 w2 b)
  assume "wfBound s"
  then have "b \<noteq> []" "list_all isDigit b" using Range by (auto simp: digits_def)
  then have "b = butlast b @ [last b] \<and> isDigit (last b)"
    by (metis append_butlast_last_id last_in_set list_all_iff)
  then have "boundText s = (a @ w1 @ [45] @ w2 @ butlast b) @ [last b] \<and> isDigit (last b)"
    using Range by simp
  then show ?thesis by blast
qed

lemma trim_schemeText:
  assumes "wfBound s" "spaces w1" "isTimes x" "spaces w2" "wfBound r" "spaces u1" "spaces u2"
  shows "trim (u1 @ schemeText s w1 x w2 r @ u2) = schemeText s w1 x w2 r"
proof -
  obtain a as where a: "boundText s = a # as" "isDigit a"
    using bound_start[OF assms(1)] by blast
  obtain bs b where b: "boundText r = bs @ [b]" "isDigit b"
    using bound_end[OF assms(5)] by blast
  have 1: "schemeText s w1 x w2 r = a # (as @ w1 @ [x] @ w2 @ boundText r)"
    using a by (simp add: schemeText_def)
  have 2: "schemeText s w1 x w2 r = (boundText s @ w1 @ [x] @ w2 @ bs) @ [b]"
    using b by (simp add: schemeText_def)
  show ?thesis
    using assms(6,7) 1 2 digit_not_space[OF a(2)] digit_not_space[OF b(2)]
    by (rule trim_spaces)
qed

section \<open>Suffixes the scanner does not read\<close>

declare exec.simps [simp del]
declare dropWhile_eq_Nil_conv [simp del]

lemma inert_noDigit: "inert j \<Longrightarrow> noDigitAhead j"
  using digit_not_space by (cases j) (auto simp: inert_def split: if_splits)

lemma takeWhile_digit_inert: "inert j \<Longrightarrow> takeWhile isDigit (u @ j) = takeWhile isDigit u"
  using inert_noDigit[of j] by (induction u) (auto simp: noDigitAhead_def split: list.splits)

lemma dropWhile_digit_inert: "inert j \<Longrightarrow> dropWhile isDigit (u @ j) = dropWhile isDigit u @ j"
  using inert_noDigit[of j] by (induction u) (auto simp: dropWhile_noDigit)

lemma scanDigits_inert:
  "inert j \<Longrightarrow> scanDigits (u @ j) = map_option (\<lambda>(d, r). (d, r @ j)) (scanDigits u)"
  by (simp add: scanDigits_def takeWhile_digit_inert dropWhile_digit_inert)

lemma dropWhile_append_if:
  "dropWhile P (u @ j) = (if list_all P u then dropWhile P j else dropWhile P u @ j)"
  by (induction u) auto

lemma dropWhile_Nil_all: "list_all P u \<Longrightarrow> dropWhile P u = []"
  by (induction u) auto

lemma scanDigits_inert_Nil: "inert j \<Longrightarrow> scanDigits (dropWhile isWhiteSpace j) = None"
  by (cases "dropWhile isWhiteSpace j") (auto simp: inert_def scanDigits_def)

lemma scanDigits_Nil [simp]: "scanDigits [] = None"
  by (simp add: scanDigits_def)

lemma scanDigits_spaces_inert:
  assumes "inert j"
  shows "scanDigits (dropWhile isWhiteSpace (u @ j)) =
         map_option (\<lambda>(d, r). (d, r @ j)) (scanDigits (dropWhile isWhiteSpace u))"
proof (cases "list_all isWhiteSpace u")
  case True
  then show ?thesis
    using assms by (simp add: dropWhile_append_if dropWhile_Nil_all scanDigits_inert_Nil)
next
  case False
  then show ?thesis
    using assms by (simp add: dropWhile_append_if scanDigits_inert)
qed

lemma dropWhile_not_all: "\<not> list_all P u \<Longrightarrow> \<exists>x xs. dropWhile P u = x # xs"
  by (induction u) auto

lemma scanRange_inert:
  assumes "inert j"
  shows "scanRange (u @ j) = map_option (\<lambda>(d, r). (d, r @ j)) (scanRange u)"
proof (cases "list_all isWhiteSpace u")
  case True
  then have "scanRange u = None" by (simp add: scanRange_def dropWhile_Nil_all)
  moreover have "scanRange (u @ j) = None"
    using True assms
    by (cases "dropWhile isWhiteSpace j") (auto simp: scanRange_def dropWhile_append_if inert_def)
  ultimately show ?thesis by simp
next
  case False
  then obtain x xs where x: "dropWhile isWhiteSpace u = x # xs"
    using dropWhile_not_all by blast
  then have "dropWhile isWhiteSpace (u @ j) = x # (xs @ j)"
    using False by (simp add: dropWhile_append_if)
  then show ?thesis
    using x assms by (simp add: scanRange_def scanDigits_spaces_inert)
qed

lemma scanTail_inert:
  assumes "inert j"
  shows "scanTail c (u @ j) = map_option (\<lambda>(m, r). (m, r @ j)) (scanTail c u)"
proof (cases "list_all isWhiteSpace u")
  case True
  then have "scanTimes u = None" by (simp add: scanTimes_def dropWhile_Nil_all)
  moreover have "scanTimes (u @ j) = None"
    using True assms
    by (cases "dropWhile isWhiteSpace j")
       (auto simp: scanTimes_def dropWhile_append_if inert_def isTimes_def)
  ultimately show ?thesis by (simp add: scanTail_def)
next
  case False
  then obtain x xs where x: "dropWhile isWhiteSpace u = x # xs"
    using dropWhile_not_all by blast
  then have xj: "dropWhile isWhiteSpace (u @ j) = x # (xs @ j)"
    using False by (simp add: dropWhile_append_if)
  show ?thesis
  proof (cases "x = 215 \<or> x = 120 \<or> x = 88")
    case False
    then show ?thesis using x xj by (simp add: scanTail_def scanTimes_def)
  next
    case True
    then have 1: "scanTimes u = Some (dropWhile isWhiteSpace xs)"
      and 2: "scanTimes (u @ j) = Some (dropWhile isWhiteSpace (xs @ j))"
      using x xj by (simp_all add: scanTimes_def)
    show ?thesis
      unfolding scanTail_def 1 2
      by (simp add: scanDigits_spaces_inert[OF assms] scanRange_inert[OF assms]
          split: option.splits)
  qed
qed

lemma scanScheme_inert:
  assumes "inert j"
  shows "scanScheme c (u @ j) = map_option (\<lambda>(m, r). (m, r @ j)) (scanScheme c u)"
  unfolding scanScheme_def
  by (simp add: scanDigits_inert[OF assms] scanRange_inert[OF assms] scanTail_inert[OF assms]
      split: option.splits)

lemma exec_Nil: "exec schemeRegex [] = None"
  by (subst exec_first) (simp add: first_schemeRegex scanScheme_def)

lemma exec_Cons:
  "exec schemeRegex (y # ys) =
     (case scanScheme (\<lambda>_. None) (y # ys) of
        Some (c, rest) \<Rightarrow> Some c
      | None \<Rightarrow> exec schemeRegex ys)"
  by (subst exec_first) (simp add: first_schemeRegex split: option.splits)

lemma scanScheme_noDigit: "\<not> isDigit y \<Longrightarrow> scanScheme c (y # ys) = None"
  by (simp add: scanScheme_def scanDigits_def)

lemma exec_no_digit: "list_all (\<lambda>x. \<not> isDigit x) j \<Longrightarrow> exec schemeRegex j = None"
  by (induction j) (simp_all add: exec_Nil exec_Cons scanScheme_noDigit)

lemma exec_inert:
  assumes "inert j" "list_all (\<lambda>x. \<not> isDigit x) j"
  shows "exec schemeRegex (u @ j) = exec schemeRegex u"
proof (induction u)
  case Nil
  then show ?case using assms(2) by (simp add: exec_Nil exec_no_digit)
next
  case (Cons y ys)
  have "scanScheme (\<lambda>_. None) ((y # ys) @ j) =
        map_option (\<lambda>(m, r). (m, r @ j)) (scanScheme (\<lambda>_. None) (y # ys))"
    using assms(1) by (rule scanScheme_inert)
  then show ?case
    using Cons by (simp add: exec_Cons split: option.splits)
qed

section \<open>The side suffix\<close>

lemma lower_slash: "toLowerCase x = 47 \<Longrightarrow> x = 47"
  by (simp add: toLowerCase_def split: if_splits)

lemma lower_letter:
  "toLowerCase x = k \<Longrightarrow> 97 \<le> k \<Longrightarrow> k \<le> 122 \<Longrightarrow> x = k \<or> x = k - 32"
  by (auto simp: toLowerCase_def split: if_splits)

lemma sideSuffix_cases:
  assumes "isSideSuffix e"
  shows "\<exists>a b c d. e = [47, a, b, c, d] \<and> (a = 115 \<or> a = 83) \<and>
     (b = 105 \<or> b = 73) \<and> (c = 100 \<or> c = 68) \<and> (d = 101 \<or> d = 69)"
proof -
  from assms obtain x a b c d where e: "e = [x, a, b, c, d]"
    and l: "toLowerCase x = 47" "toLowerCase a = 115" "toLowerCase b = 105"
      "toLowerCase c = 100" "toLowerCase d = 101"
    unfolding isSideSuffix_def str_def by (auto simp: map_eq_Cons_conv)
  have "x = 47" using l(1) by (rule lower_slash)
  moreover have "a = 115 \<or> a = 83" using lower_letter[OF l(2)] by simp
  moreover have "b = 105 \<or> b = 73" using lower_letter[OF l(3)] by simp
  moreover have "c = 100 \<or> c = 68" using lower_letter[OF l(4)] by simp
  moreover have "d = 101 \<or> d = 69" using lower_letter[OF l(5)] by simp
  ultimately show ?thesis using e by simp
qed

lemma canon_lower: "canonicalize (toLowerCase x) = canonicalize x"
  by (simp add: canonicalize_def toLowerCase_def)

lemma sideSuffix_sideAt:
  assumes "isSideSuffix e"
  shows "sideAt e \<and> length e = 5"
proof -
  have len: "length e = 5"
    using assms by (auto simp: isSideSuffix_def str_def dest: arg_cong[where f=length])
  have "map canonicalize (map toLowerCase e) = map canonicalize e"
    by (simp add: canon_lower)
  moreover have "map toLowerCase e = str ''/side''"
    using assms by (simp add: isSideSuffix_def)
  ultimately have "map canonicalize e = map canonicalize (str ''/side'')"
    by (simp only:)
  then show ?thesis using len by (simp add: sideAt_def)
qed

lemma letter_not_digit: "x = a \<or> x = b \<Longrightarrow> 58 \<le> a \<Longrightarrow> 58 \<le> b \<Longrightarrow> \<not> isDigit x"
  by (auto simp: isDigit_def)

lemma sideSuffix_inert:
  assumes "isSideSuffix e"
  shows "inert e \<and> list_all (\<lambda>x. \<not> isDigit x) e"
proof -
  obtain a b c d where e: "e = [47, a, b, c, d]" "a = 115 \<or> a = 83"
     "b = 105 \<or> b = 73" "c = 100 \<or> c = 68" "d = 101 \<or> d = 69"
    using sideSuffix_cases[OF assms] by blast
  have "\<not> isDigit a" using e(2) by (rule letter_not_digit) simp_all
  moreover have "\<not> isDigit b" using e(3) by (rule letter_not_digit) simp_all
  moreover have "\<not> isDigit c" using e(4) by (rule letter_not_digit) simp_all
  moreover have "\<not> isDigit d" using e(5) by (rule letter_not_digit) simp_all
  moreover have "\<not> isDigit 47" "\<not> isWhiteSpace 47" "\<not> isTimes 47"
    by (simp_all add: isDigit_def isWhiteSpace_def isTimes_def)
  ultimately show ?thesis using e(1) by (simp add: inert_def)
qed

lemma sideAt_length: "sideAt t \<Longrightarrow> 5 \<le> length t"
  by (auto simp: sideAt_def str_def dest!: arg_cong[where f=length])

lemma short_cases:
  assumes "t \<noteq> []" "length t < 5"
  obtains a where "t = [a]" | a b where "t = [a, b]" | a b c where "t = [a, b, c]"
    | a b c d where "t = [a, b, c, d]"
proof (cases t)
  case Nil
  then show ?thesis using assms by simp
next
  case c1: (Cons a t1)
  show ?thesis
  proof (cases t1)
    case Nil
    then show ?thesis using c1 that(1) by simp
  next
    case c2: (Cons b t2)
    show ?thesis
    proof (cases t2)
      case Nil
      then show ?thesis using c1 c2 that(2) by simp
    next
      case c3: (Cons c t3)
      show ?thesis
      proof (cases t3)
        case Nil
        then show ?thesis using c1 c2 c3 that(3) by simp
      next
        case c4: (Cons d t4)
        then have "t4 = []" using assms(2) c1 c2 c3 by simp
        then show ?thesis using c1 c2 c3 c4 that(4) by simp
      qed
    qed
  qed
qed

lemma sideAt_append:
  assumes "t \<noteq> []" "j = [] \<or> canonicalize (hd j) \<notin> {83, 73, 68, 69}"
  shows "sideAt (t @ j) = sideAt t"
proof (cases "5 \<le> length t")
  case True
  then show ?thesis by (simp add: sideAt_def)
next
  case False
  then have short: "length t < 5" by simp
  have no: "\<not> sideAt t" using sideAt_length short by fastforce
  have "\<not> sideAt (t @ j)"
  proof (cases j)
    case Nil then show ?thesis using no by simp
  next
    case (Cons h hs)
    then have h: "canonicalize h \<noteq> 83" "canonicalize h \<noteq> 73" "canonicalize h \<noteq> 68"
      "canonicalize h \<noteq> 69" using assms(2) by auto
    show ?thesis
      using assms(1) short
    proof (cases t rule: short_cases)
      case (1 a) then show ?thesis using Cons h by (simp add: sideAt_def str_def canonicalize_def[of 115])
    next
      case (2 a b) then show ?thesis using Cons h by (simp add: sideAt_def str_def canonicalize_def[of 105])
    next
      case (3 a b c) then show ?thesis using Cons h by (simp add: sideAt_def str_def canonicalize_def[of 100])
    next
      case (4 a b c d) then show ?thesis using Cons h by (simp add: sideAt_def str_def canonicalize_def[of 101])
    qed
  qed
  then show ?thesis using no by simp
qed

lemma removeSide_suffix:
  assumes "isSideSuffix e"
  shows "removeSide (t @ e) = removeSide t \<or> removeSide (t @ e) = removeSide t @ e"
proof (induction t)
  case Nil
  obtain a b c d where "e = [47, a, b, c, d]" using sideSuffix_cases[OF assms] by blast
  then show ?case using sideSuffix_sideAt[OF assms] by simp
next
  case (Cons y ys)
  have "hd e = 47" using sideSuffix_cases[OF assms] by auto
  then have "canonicalize (hd e) \<notin> {83, 73, 68, 69}" by (simp add: canonicalize_def)
  then have eq: "sideAt ((y # ys) @ e) = sideAt (y # ys)"
    by (intro sideAt_append) simp_all
  show ?case
  proof (cases "sideAt (y # ys)")
    case True
    then have "5 \<le> length (y # ys)" by (rule sideAt_length)
    then have "drop 5 ((y # ys) @ e) = drop 5 (y # ys) @ e" by simp
    then show ?thesis using True eq by (simp del: drop_Suc_Cons)
  next
    case False
    then show ?thesis using eq Cons by auto
  qed
qed

lemma space_canon: "isWhiteSpace x \<Longrightarrow> canonicalize x \<notin> {83, 73, 68, 69}"
  by (auto simp: isWhiteSpace_def canonicalize_def)

lemma removeSide_spaces:
  assumes "spaces w"
  shows "removeSide (v @ w) = removeSide v @ w"
proof (induction v)
  case Nil
  then show ?case using assms by (simp add: removeSide_id spaces_no_slash)
next
  case (Cons y ys)
  have "w = [] \<or> canonicalize (hd w) \<notin> {83, 73, 68, 69}"
    using assms space_canon by (cases w) (auto simp: spaces_def)
  then have eq: "sideAt ((y # ys) @ w) = sideAt (y # ys)"
    by (intro sideAt_append) simp_all
  show ?case
  proof (cases "sideAt (y # ys)")
    case True
    then have "5 \<le> length (y # ys)" by (rule sideAt_length)
    then have "drop 5 ((y # ys) @ w) = drop 5 (y # ys) @ w" by simp
    then show ?thesis using True eq by (simp del: drop_Suc_Cons)
  next
    case False
    then show ?thesis using eq Cons by auto
  qed
qed

lemma spaces_inert: "spaces w \<Longrightarrow> inert w \<and> list_all (\<lambda>x. \<not> isDigit x) w"
  using digit_not_space
  by (auto simp: inert_def spaces_def dropWhile_Nil_all list_all_iff)

lemma parseScheme_side: "isSideSuffix e \<Longrightarrow> parseScheme (t @ e) = parseScheme t"
  using removeSide_suffix[of e t] sideSuffix_inert[of e]
  by (auto simp: parseScheme_def readScheme_def exec_inert)

lemma parseScheme_spaces: "spaces w \<Longrightarrow> parseScheme (v @ w) = parseScheme v"
  using spaces_inert[of w]
  by (simp add: parseScheme_def readScheme_def removeSide_spaces exec_inert)

lemma trim_end_decomp:
  "\<exists>w. spaces w \<and> u = rev (dropWhile isWhiteSpace (rev u)) @ w"
proof -
  have "rev u = takeWhile isWhiteSpace (rev u) @ dropWhile isWhiteSpace (rev u)" by simp
  then have "u = rev (dropWhile isWhiteSpace (rev u)) @ rev (takeWhile isWhiteSpace (rev u))"
    by (metis rev_append rev_rev_ident)
  moreover have "spaces (rev (takeWhile isWhiteSpace (rev u)))"
    by (auto simp: spaces_def list_all_iff dest: set_takeWhileD)
  ultimately show ?thesis by blast
qed

lemma parseScheme_trim: "parseScheme (trim l) = parseScheme (dropWhile isWhiteSpace l)"
proof -
  obtain w where "spaces w"
    "dropWhile isWhiteSpace l = rev (dropWhile isWhiteSpace (rev (dropWhile isWhiteSpace l))) @ w"
    using trim_end_decomp by blast
  then show ?thesis
    using parseScheme_spaces[of w "trim l"] by (simp add: trim_def)
qed

lemma split_ne: "split sep acc t \<noteq> []"
  by (induction t arbitrary: acc) auto

lemma last_split_append:
  "sep \<notin> set e \<Longrightarrow> last (split sep acc (b @ e)) = last (split sep acc b) @ e"
proof (induction b arbitrary: acc)
  case Nil
  then show ?case using split_app[of sep e acc "[]"] by simp
next
  case (Cons x xs)
  show ?case using Cons split_ne by simp
qed

lemma startsWithAlt_length: "startsWithAlt s \<Longrightarrow> 4 \<le> length s"
  by (auto simp: startsWithAlt_def str_def dest!: arg_cong[where f=length])

lemma startsWithAlt_side:
  assumes "isSideSuffix e"
  shows "startsWithAlt (s @ e) = startsWithAlt s"
proof (cases "4 \<le> length s")
  case True
  then show ?thesis by (simp add: startsWithAlt_def)
next
  case False
  then have no: "\<not> startsWithAlt s" using startsWithAlt_length by blast
  obtain a b c d where e: "e = [47, a, b, c, d]" using sideSuffix_cases[OF assms] by blast
  have "\<not> startsWithAlt (s @ e)"
  proof (cases "s = []")
    case True
    then show ?thesis using e by (simp add: startsWithAlt_def str_def toLowerCase_def)
  next
    case ne: False
    have "length s < 5" using False by simp
    with ne show ?thesis
    proof (cases s rule: short_cases)
      case (1 a) then show ?thesis using e by (simp add: startsWithAlt_def str_def toLowerCase_def)
    next
      case (2 a b) then show ?thesis using e by (simp add: startsWithAlt_def str_def toLowerCase_def)
    next
      case (3 a b c) then show ?thesis using e by (simp add: startsWithAlt_def str_def toLowerCase_def)
    next
      case (4 a b c d) then show ?thesis using False by simp
    qed
  qed
  then show ?thesis using no by simp
qed

lemma trim_side:
  assumes "isSideSuffix e"
  shows "trim (l @ e) = dropWhile isWhiteSpace l @ e"
proof -
  obtain a b c d where e: "e = [47, a, b, c, d]" "d = 101 \<or> d = 69"
    using sideSuffix_cases[OF assms] by blast
  have d: "\<not> isWhiteSpace d" using e(2) by (auto simp: isWhiteSpace_def)
  have s: "\<not> isWhiteSpace 47" by (simp add: isWhiteSpace_def)
  have 1: "dropWhile isWhiteSpace (l @ e) = dropWhile isWhiteSpace l @ e"
    using e(1) s by (simp add: dropWhile_append_if dropWhile_Nil_all)
  have "rev (dropWhile isWhiteSpace l @ e) = d # rev (dropWhile isWhiteSpace l @ [47, a, b, c])"
    using e(1) by simp
  then have "dropWhile isWhiteSpace (rev (dropWhile isWhiteSpace l @ e)) = rev (dropWhile isWhiteSpace l @ e)"
    using d by simp
  then show ?thesis by (simp add: trim_def 1)
qed

lemma parseRx_side:
  assumes "isSideSuffix e"
  shows "parseRx (Some (s @ e)) = parseRx (Some s)"
proof (cases "s = []")
  case True
  have "\<not> startsWithAlt e" using startsWithAlt_side[OF assms, of "[]"]
    by (simp add: startsWithAlt_def str_def)
  moreover have "parseScheme e = parseScheme []" using parseScheme_side[OF assms, of "[]"] by simp
  moreover have "parseScheme [] = None" by (simp add: parseScheme_def readScheme_def exec_Nil)
  moreover have "e \<noteq> []" using sideSuffix_sideAt[OF assms] by auto
  ultimately show ?thesis using True by (simp add: parseRx_def selectScheme_def)
next
  case False
  show ?thesis
  proof (cases "startsWithAlt s")
    case False
    then show ?thesis
      using \<open>s \<noteq> []\<close> startsWithAlt_side[OF assms, of s] parseScheme_side[OF assms]
      by (simp add: parseRx_def selectScheme_def)
  next
    case True
    then have "4 \<le> length s" by (rule startsWithAlt_length)
    then have dr: "drop 4 (s @ e) = drop 4 s @ e" by simp
    have "44 \<notin> set e" using sideSuffix_cases[OF assms] by auto
    then have "last (split 44 [] (drop 4 s @ e)) = last (split 44 [] (drop 4 s)) @ e"
      by (rule last_split_append)
    then have "selectScheme (s @ e) = dropWhile isWhiteSpace (last (split 44 [] (drop 4 s))) @ e"
      using True startsWithAlt_side[OF assms, of s] dr
      by (simp add: selectScheme_def trim_side[OF assms])
    then have "parseScheme (selectScheme (s @ e)) = parseScheme (selectScheme s)"
      using True by (simp add: parseScheme_side[OF assms] selectScheme_def parseScheme_trim)
    then show ?thesis using \<open>s \<noteq> []\<close> by (simp add: parseRx_def)
  qed
qed

section \<open>The matcher against the shape of a scheme\<close>

lemma exec_Some_iff:
  "exec schemeRegex u \<noteq> None \<longleftrightarrow> (\<exists>pre v. u = pre @ v \<and> scanScheme (\<lambda>_. None) v \<noteq> None)"
proof (induction u)
  case Nil
  then show ?case by (simp add: exec_Nil scanScheme_def)
next
  case (Cons y ys)
  show ?case
  proof (cases "scanScheme (\<lambda>_. None) (y # ys)")
    case (Some a)
    then have "exec schemeRegex (y # ys) \<noteq> None" by (simp add: exec_Cons split: prod.splits)
    moreover have "\<exists>pre v. y # ys = pre @ v \<and> scanScheme (\<lambda>_. None) v \<noteq> None"
      using Some by (intro exI[of _ "[]"] exI[of _ "y # ys"]) simp
    ultimately show ?thesis by simp
  next
    case None
    then have e: "exec schemeRegex (y # ys) = exec schemeRegex ys" by (simp add: exec_Cons)
    have "(\<exists>pre v. y # ys = pre @ v \<and> scanScheme (\<lambda>_. None) v \<noteq> None)
        \<longleftrightarrow> (\<exists>pre v. ys = pre @ v \<and> scanScheme (\<lambda>_. None) v \<noteq> None)"
    proof
      assume "\<exists>pre v. y # ys = pre @ v \<and> scanScheme (\<lambda>_. None) v \<noteq> None"
      then obtain pre v where pv: "y # ys = pre @ v" "scanScheme (\<lambda>_. None) v \<noteq> None" by blast
      then have "pre \<noteq> []" using None by (cases pre) auto
      then obtain pre' where "pre = y # pre'" "ys = pre' @ v" using pv(1) by (cases pre) auto
      then show "\<exists>pre v. ys = pre @ v \<and> scanScheme (\<lambda>_. None) v \<noteq> None" using pv(2) by blast
    next
      assume "\<exists>pre v. ys = pre @ v \<and> scanScheme (\<lambda>_. None) v \<noteq> None"
      then obtain pre v where "ys = pre @ v" "scanScheme (\<lambda>_. None) v \<noteq> None" by blast
      then have "y # ys = (y # pre) @ v \<and> scanScheme (\<lambda>_. None) v \<noteq> None" by simp
      then show "\<exists>pre v. y # ys = pre @ v \<and> scanScheme (\<lambda>_. None) v \<noteq> None" by blast
    qed
    then show ?thesis using e Cons by simp
  qed
qed

lemma exec_Some_scan:
  "exec schemeRegex u = Some m \<Longrightarrow> \<exists>v rest. scanScheme (\<lambda>_. None) v = Some (m, rest)"
  by (induction u) (auto simp: exec_Nil exec_Cons split: option.splits)

lemma scanDigits_Some: "scanDigits v = Some (d, r) \<Longrightarrow> digits d \<and> v = d @ r"
  by (auto simp: scanDigits_def digits_def list_all_iff split: if_splits dest: set_takeWhileD)

lemma spaces_takeWhile: "spaces (takeWhile isWhiteSpace v)"
  by (auto simp: spaces_def list_all_iff dest: set_takeWhileD)

lemma scanRange_Some:
  assumes "scanRange v = Some (b, r)"
  shows "\<exists>u1 u2. spaces u1 \<and> spaces u2 \<and> digits b \<and> v = u1 @ 45 # u2 @ b @ r"
proof -
  obtain xs where xs: "dropWhile isWhiteSpace v = 45 # xs"
      "scanDigits (dropWhile isWhiteSpace xs) = Some (b, r)"
    using assms by (auto simp: scanRange_def split: list.splits if_splits)
  have "digits b" "dropWhile isWhiteSpace xs = b @ r"
    using scanDigits_Some[OF xs(2)] by simp_all
  then have "xs = takeWhile isWhiteSpace xs @ b @ r"
    by (metis takeWhile_dropWhile_id)
  moreover have "v = takeWhile isWhiteSpace v @ 45 # xs"
    using xs(1) by (metis takeWhile_dropWhile_id)
  ultimately have "v = takeWhile isWhiteSpace v @ 45 # takeWhile isWhiteSpace xs @ b @ r"
    by simp
  then show ?thesis using spaces_takeWhile \<open>digits b\<close> by blast
qed

lemma scanTimes_Some:
  assumes "scanTimes v = Some r"
  shows "\<exists>w1 x w2. spaces w1 \<and> isTimes x \<and> spaces w2 \<and> v = w1 @ x # w2 @ r"
proof -
  obtain x xs where xs: "dropWhile isWhiteSpace v = x # xs" "isTimes x"
      "r = dropWhile isWhiteSpace xs"
    using assms by (auto simp: scanTimes_def isTimes_def split: list.splits if_splits)
  have "xs = takeWhile isWhiteSpace xs @ r" using xs(3) by simp
  moreover have "v = takeWhile isWhiteSpace v @ x # xs"
    using xs(1) by (metis takeWhile_dropWhile_id)
  ultimately have "v = takeWhile isWhiteSpace v @ x # takeWhile isWhiteSpace xs @ r" by simp
  then show ?thesis using spaces_takeWhile xs(2) by blast
qed

lemma scanTail_Some:
  assumes "scanTail c v = Some (m, rest)"
  shows "\<exists>w1 x w2 C r3. spaces w1 \<and> isTimes x \<and> spaces w2 \<and> digits C \<and>
           v = w1 @ x # w2 @ C @ r3 \<and> m 3 = Some C \<and> m 1 = c 1 \<and> m 2 = c 2 \<and>
           (m 4 = c 4 \<or> (\<exists>D. digits D \<and> m 4 = Some D))"
proof -
  obtain r C r' where 1: "scanTimes v = Some r" and 2: "scanDigits r = Some (C, r')"
    and 3: "(m, rest) = (case scanRange r' of None \<Rightarrow> (c(3 := Some C), r')
                       | Some (D, r'') \<Rightarrow> (c(3 := Some C, 4 := Some D), r''))"
    using assms by (auto simp: scanTail_def split: option.splits)
  obtain w1 x w2 where w: "spaces w1" "isTimes x" "spaces w2" "v = w1 @ x # w2 @ r"
    using scanTimes_Some[OF 1] by blast
  have C: "digits C" "r = C @ r'" using scanDigits_Some[OF 2] by simp_all
  have m: "m 3 = Some C \<and> m 1 = c 1 \<and> m 2 = c 2 \<and> (m 4 = c 4 \<or> (\<exists>D. digits D \<and> m 4 = Some D))"
  proof (cases "scanRange r'")
    case None
    then show ?thesis using 3 by simp
  next
    case (Some a)
    then obtain D r'' where a: "a = (D, r'')" by (cases a)
    then have "digits D" using scanRange_Some Some by blast
    then show ?thesis using 3 Some a by auto
  qed
  have "v = w1 @ x # w2 @ C @ r'" using w(4) C(2) by simp
  then show ?thesis using w(1-3) C(1) m by blast
qed

lemma isSchemeTextI:
  "wfBound s \<Longrightarrow> spaces w1 \<Longrightarrow> isTimes x \<Longrightarrow> spaces w2 \<Longrightarrow> wfBound r \<Longrightarrow>
   isSchemeText (schemeText s w1 x w2 r)"
  unfolding isSchemeText_def by blast

lemma scanScheme_Some:
  assumes "scanScheme (\<lambda>_. None) v = Some (m, rest)"
  shows "(\<exists>body r3. v = body @ r3 \<and> isSchemeText body) \<and>
         (\<exists>d. digits d \<and> orElse (m 2) (m 1) = Some d) \<and>
         (\<exists>d. digits d \<and> orElse (m 4) (m 3) = Some d)"
proof -
  have "scanDigits v \<noteq> None"
  proof
    assume "scanDigits v = None"
    then have "scanScheme (\<lambda>_. None) v = None" by (simp add: scanScheme_def)
    then show False using assms by simp
  qed
  then obtain A r where A: "scanDigits v = Some (A, r)"
    by (cases "scanDigits v") auto
  then have dA: "digits A" "v = A @ r" using scanDigits_Some by simp_all
  let ?c1 = "((\<lambda>_. None)(1 := Some A)) :: captures"
  have sel: "(case scanRange r of
          None \<Rightarrow> scanTail ?c1 r
        | Some (B, r') \<Rightarrow>
            (case scanTail (?c1(2 := Some B)) r' of
               Some y \<Rightarrow> Some y
             | None \<Rightarrow> scanTail ?c1 r)) = Some (m, rest)"
    using assms A by (simp add: scanScheme_def)
  have "scanTail ?c1 r = Some (m, rest) \<or>
      (\<exists>B r'. scanRange r = Some (B, r') \<and> scanTail (?c1(2 := Some B)) r' = Some (m, rest))"
  proof (cases "scanRange r")
    case None
    then show ?thesis using sel by simp
  next
    case (Some a)
    obtain B r' where a: "a = (B, r')" by (cases a)
    show ?thesis
    proof (cases "scanTail (?c1(2 := Some B)) r'")
      case None
      then show ?thesis using sel Some a by simp
    next
      case (Some y)
      then show ?thesis using sel \<open>scanRange r = Some a\<close> a by simp
    qed
  qed
  then consider (plain) "scanTail ?c1 r = Some (m, rest)"
    | (range) B r' where "scanRange r = Some (B, r')"
        "scanTail (?c1(2 := Some B)) r' = Some (m, rest)"
    by blast
  then show ?thesis
  proof cases
    case plain
    then obtain w1 x w2 C r3 where t: "spaces w1" "isTimes x" "spaces w2" "digits C"
        "r = w1 @ x # w2 @ C @ r3" "m 3 = Some C" "m 1 = ?c1 1" "m 2 = ?c1 2"
        "m 4 = ?c1 4 \<or> (\<exists>D. digits D \<and> m 4 = Some D)"
      using scanTail_Some[OF plain] by blast
    have "v = schemeText (Single A) w1 x w2 (Single C) @ r3"
      using dA(2) t(5) by (simp add: schemeText_def)
    moreover have "isSchemeText (schemeText (Single A) w1 x w2 (Single C))"
      using dA(1) t(1-4) by (intro isSchemeTextI) simp_all
    ultimately have p1: "\<exists>body r3. v = body @ r3 \<and> isSchemeText body" by blast
    have "orElse (m 2) (m 1) = Some A" using t(7,8) by (simp add: orElse_def)
    then have p2: "\<exists>d. digits d \<and> orElse (m 2) (m 1) = Some d" using dA(1) by blast
    have p3: "\<exists>d. digits d \<and> orElse (m 4) (m 3) = Some d"
      using t(4,6,9) by (auto simp: orElse_def digits_ne)
    show ?thesis using p1 p2 p3 by (intro conjI)
  next
    case range
    obtain u1 u2 where u: "spaces u1" "spaces u2" "digits B" "r = u1 @ 45 # u2 @ B @ r'"
      using scanRange_Some[OF range(1)] by blast
    obtain w1 x w2 C r3 where t: "spaces w1" "isTimes x" "spaces w2" "digits C"
        "r' = w1 @ x # w2 @ C @ r3" "m 3 = Some C" "m 1 = (?c1(2 := Some B)) 1"
        "m 2 = (?c1(2 := Some B)) 2"
        "m 4 = (?c1(2 := Some B)) 4 \<or> (\<exists>D. digits D \<and> m 4 = Some D)"
      using scanTail_Some[OF range(2)] by blast
    have "v = schemeText (Range A u1 u2 B) w1 x w2 (Single C) @ r3"
      using dA(2) u(4) t(5) by (simp add: schemeText_def)
    moreover have "isSchemeText (schemeText (Range A u1 u2 B) w1 x w2 (Single C))"
      using dA(1) u(1-3) t(1-4) by (intro isSchemeTextI) simp_all
    ultimately have p1: "\<exists>body r3. v = body @ r3 \<and> isSchemeText body" by blast
    have "orElse (m 2) (m 1) = Some B" using t(8) u(3) by (simp add: orElse_def digits_ne)
    then have p2: "\<exists>d. digits d \<and> orElse (m 2) (m 1) = Some d" using u(3) by blast
    have p3: "\<exists>d. digits d \<and> orElse (m 4) (m 3) = Some d"
      using t(4,6,9) by (auto simp: orElse_def digits_ne)
    show ?thesis using p1 p2 p3 by (intro conjI)
  qed
qed

lemma times_not_space: "isTimes x \<Longrightarrow> \<not> isWhiteSpace x"
  by (auto simp: isTimes_def isWhiteSpace_def)

lemma scanTail_complete:
  assumes "spaces w1" "isTimes x" "spaces w2" "wfBound r"
  shows "scanTail c (w1 @ x # w2 @ boundText r @ post) \<noteq> None"
proof -
  obtain d ds where d: "boundText r = d # ds" "isDigit d"
    using bound_start[OF assms(4)] by blast
  have "dropWhile isWhiteSpace (w1 @ x # w2 @ boundText r @ post) = x # w2 @ boundText r @ post"
    using assms(1,2) times_not_space by (simp add: dropWhile_spaces)
  moreover have "dropWhile isWhiteSpace (w2 @ boundText r @ post) = d # ds @ post"
    using assms(3) d digit_not_space by (simp add: dropWhile_spaces)
  ultimately have "scanTimes (w1 @ x # w2 @ boundText r @ post) = Some (d # ds @ post)"
    using assms(2) by (auto simp: scanTimes_def isTimes_def)
  moreover have "scanDigits (d # ds @ post) \<noteq> None"
    using d(2) by (simp add: scanDigits_def)
  ultimately show ?thesis by (auto simp: scanTail_def)
qed

lemma scanScheme_complete:
  assumes "isSchemeText body"
  shows "scanScheme c (body @ post) \<noteq> None"
proof -
  obtain s w1 x w2 r where b: "wfBound s" "spaces w1" "isTimes x" "spaces w2" "wfBound r"
      "body = schemeText s w1 x w2 r"
    using assms unfolding isSchemeText_def by blast
  let ?R = "w1 @ x # w2 @ boundText r @ post"
  have ndR: "noDigitAhead ?R"
    using b(2,3) by (intro noDigitAhead_spaces) (simp_all add: times_noDigit)
  have tail: "\<And>c. scanTail c ?R \<noteq> None"
    using b(2-5) by (rule scanTail_complete)
  show ?thesis
  proof (cases s)
    case (Single a)
    then have "body @ post = a @ ?R" using b(6) by (simp add: schemeText_def)
    moreover have "scanDigits (a @ ?R) = Some (a, ?R)"
      using b(1) Single ndR by (simp add: scanDigits_app)
    moreover have "scanRange ?R = None" using b(2,3) by (rule scanRange_times)
    ultimately show ?thesis using tail by (simp add: scanScheme_def)
  next
    case (Range a u1 u2 h)
    then have wf: "digits a" "spaces u1" "spaces u2" "digits h" using b(1) by simp_all
    have "body @ post = a @ u1 @ 45 # u2 @ h @ ?R"
      using Range b(6) by (simp add: schemeText_def)
    moreover have "noDigitAhead (u1 @ 45 # u2 @ h @ ?R)"
      using wf(2) by (intro noDigitAhead_spaces) (simp_all add: isDigit_def)
    then have "scanDigits (a @ u1 @ 45 # u2 @ h @ ?R) = Some (a, u1 @ 45 # u2 @ h @ ?R)"
      using wf(1) by (simp add: scanDigits_app)
    moreover have "scanRange (u1 @ 45 # u2 @ h @ ?R) = Some (h, ?R)"
      using wf(2-4) ndR by (rule scanRange_app)
    moreover obtain y where "scanTail (c(1 := Some a, 2 := Some h)) ?R = Some y"
      using tail[of "c(1 := Some a, 2 := Some h)"] by auto
    ultimately show ?thesis
      by (simp add: scanScheme_def)
  qed
qed

lemma exec_hasScheme: "exec schemeRegex u \<noteq> None \<longleftrightarrow> hasScheme u"
proof
  assume "exec schemeRegex u \<noteq> None"
  then obtain pre v where pv: "u = pre @ v" "scanScheme (\<lambda>_. None) v \<noteq> None"
    using exec_Some_iff by blast
  then obtain m rest where "scanScheme (\<lambda>_. None) v = Some (m, rest)" by auto
  then obtain body r3 where "v = body @ r3" "isSchemeText body"
    using scanScheme_Some by blast
  then show "hasScheme u" using pv(1) unfolding hasScheme_def by blast
next
  assume "hasScheme u"
  then obtain pre body post where u: "u = pre @ body @ post" "isSchemeText body"
    unfolding hasScheme_def by blast
  then have "scanScheme (\<lambda>_. None) (body @ post) \<noteq> None" by (intro scanScheme_complete)
  then show "exec schemeRegex u \<noteq> None" using u(1) exec_Some_iff by blast
qed

lemma parseScheme_None: "parseScheme t = None \<longleftrightarrow> \<not> hasScheme (removeSide t)"
  using exec_hasScheme[of "removeSide t"]
  by (auto simp: parseScheme_def readScheme_def split: option.splits)

lemma readScheme_numeric:
  assumes "readScheme t = Some y"
  shows "\<exists>d1 d2. digits d1 \<and> digits d2 \<and>
           y = \<lparr>maxSets = toDouble (valueOf d1), maxReps = toDouble (valueOf d2)\<rparr>"
proof -
  obtain m where m: "exec schemeRegex t = Some m"
      "y = \<lparr>maxSets = parseIntOf (orElse (m 2) (m 1)), maxReps = parseIntOf (orElse (m 4) (m 3))\<rparr>"
    using assms by (auto simp: readScheme_def split: option.splits)
  obtain v rest where "scanScheme (\<lambda>_. None) v = Some (m, rest)"
    using exec_Some_scan[OF m(1)] by blast
  then obtain d1 d2 where "digits d1" "orElse (m 2) (m 1) = Some d1"
      "digits d2" "orElse (m 4) (m 3) = Some d2"
    using scanScheme_Some by blast
  then show ?thesis using m(2) by (auto simp: parseIntOf_def parseInt_digits)
qed

lemma readScheme_None: "readScheme t = None \<longleftrightarrow> \<not> hasScheme t"
  using exec_hasScheme[of t] by (auto simp: readScheme_def split: option.splits)

lemma parseRx_numeric:
  assumes "parseRx rx = Some y"
  shows "\<exists>a b. y = \<lparr>maxSets = toDouble a, maxReps = toDouble b\<rparr>"
proof -
  obtain s where "readScheme (removeSide (selectScheme s)) = Some y"
    using assms by (auto simp: parseRx_def parseScheme_def split: option.splits if_splits)
  then show ?thesis using readScheme_numeric by blast
qed

lemma removeSide_first:
  assumes "isSideSuffix e" "47 \<notin> set u"
  shows "removeSide (u @ e @ v) = u @ v"
  using assms(2)
proof (induction u)
  case Nil
  have e: "sideAt e" "length e = 5" using sideSuffix_sideAt[OF assms(1)] by simp_all
  then have "sideAt (e @ v)" by (simp add: sideAt_def)
  moreover obtain x xs where "e = x # xs" using e(2) by (cases e) auto
  ultimately show ?case using e(2) by simp
next
  case (Cons a u)
  then have "\<not> sideAt ((a # u) @ e @ v)" using sideAt_slash[of a "u @ e @ v"] by auto
  then show ?case using Cons by simp
qed

lemma exec_skip:
  "list_all (\<lambda>x. \<not> isDigit x) w \<Longrightarrow> exec schemeRegex (w @ t) = exec schemeRegex t"
  by (induction w) (simp_all add: exec_Cons scanScheme_noDigit)

lemma exec_trim: "exec schemeRegex (trim q) = exec schemeRegex q"
proof -
  let ?d = "dropWhile isWhiteSpace q"
  obtain w where w: "spaces w" "?d = trim q @ w"
    using trim_end_decomp[of ?d] by (auto simp: trim_def)
  have "exec schemeRegex ?d = exec schemeRegex (trim q)"
    using spaces_inert[OF w(1)] by (simp add: w(2) exec_inert)
  moreover have "list_all (\<lambda>x. \<not> isDigit x) (takeWhile isWhiteSpace q)"
    using digit_not_space by (auto simp: list_all_iff dest: set_takeWhileD)
  then have "exec schemeRegex (takeWhile isWhiteSpace q @ ?d) = exec schemeRegex ?d"
    by (rule exec_skip)
  ultimately show ?thesis by simp
qed

lemma readScheme_trim: "readScheme (trim q) = readScheme q"
  by (simp add: readScheme_def exec_trim)

lemma trim_subset: "set (trim q) \<subseteq> set q"
  by (auto simp: trim_def dest!: set_dropWhileD)

lemma parseRx_plain:
  assumes "\<not> startsWithAlt s" "47 \<notin> set s"
  shows "parseRx (Some s) = readScheme s"
proof (cases "s = []")
  case True
  then show ?thesis by (simp add: parseRx_def readScheme_def exec_Nil)
next
  case False
  then show ?thesis
    using assms by (simp add: parseRx_def selectScheme_def parseScheme_def removeSide_id)
qed

lemma parseRx_first_side:
  assumes "isSideSuffix e" "47 \<notin> set u" "\<not> startsWithAlt (u @ e @ v)"
  shows "parseRx (Some (u @ e @ v)) = readScheme (u @ v)"
proof -
  have "e \<noteq> []" using sideSuffix_sideAt[OF assms(1)] by auto
  then show ?thesis
    using assms
    by (simp add: parseRx_def selectScheme_def parseScheme_def removeSide_first)
qed

lemma parseRx_alt_plain:
  assumes "isAltMarker m" "list_all (\<lambda>p. 44 \<notin> set p) (ps @ [q])" "47 \<notin> set q"
  shows "parseRx (Some (m @ joinComma (ps @ [q]))) = readScheme q"
proof -
  have "47 \<notin> set (trim q)" using assms(3) trim_subset by blast
  then have "parseScheme (trim q) = readScheme (trim q)"
    by (simp add: parseScheme_def removeSide_id)
  then show ?thesis using parseRx_alt[OF assms(1,2)] by (simp add: readScheme_trim)
qed

lemmas scan_eval = str_def isWhiteSpace_def isDigit_def toLowerCase_def canonicalize_def trim_def
  digitValue_def radixValue_def parseInt_def startsWithAlt_def sideAt_def orElse_def
  parseIntOf_def parseScheme_def readScheme_def selectScheme_def parseRx_def Let_def
  exec_Nil exec_Cons scanScheme_def scanTail_def scanDigits_def scanRange_def scanTimes_def
  toDouble_exact

lemma parseRx_example: "parseRx (Some (str ''alt: 3x5, 4x5-6'')) = Some \<lparr>maxSets = Num 4, maxReps = Num 6\<rparr>"
  by (simp add: scan_eval)

lemma parseRx_side_example:
  "parseRx (Some (str ''2-3 x 10-15/side'')) = Some \<lparr>maxSets = Num 3, maxReps = Num 15\<rparr>"
  by (simp add: scan_eval)

lemma parseRx_inner_side_example:
  "parseRx (Some (str ''3 x 10/side-15'')) = Some \<lparr>maxSets = Num 3, maxReps = Num 15\<rparr>"
  by (simp add: scan_eval)

lemma parseRx_second_side_example:
  "parseRx (Some (str ''3 x 10/side/side-15'')) = Some \<lparr>maxSets = Num 3, maxReps = Num 10\<rparr>"
  by (simp add: scan_eval)

lemma parseRx_large_example:
  "parseRx (Some (str ''9007199254740993x5'')) =
     Some \<lparr>maxSets = Num 9007199254740992, maxReps = Num 5\<rparr>"
  by (simp add: scan_eval double_eval)

lemma decimal_zeros: "decimal (replicate n 48) acc = acc * 10 ^ n"
  by (induction n arbitrary: acc) simp_all

lemma parseRx_infinity_example:
  "parseRx (Some (49 # replicate 309 48 @ str ''x5'')) = Some \<lparr>maxSets = Infinity, maxReps = Num 5\<rparr>"
proof -
  let ?s = "Single (49 # replicate 309 48)"
  have wf: "wfBound ?s" "spaces []" "isTimes 120" "wfBound (Single (str ''5''))"
    by (simp_all add: digits_def isDigit_def spaces_def isTimes_def str_def list_all_iff)
  have t: "schemeText ?s [] 120 [] (Single (str ''5'')) = 49 # replicate 309 48 @ str ''x5''"
    by (simp add: schemeText_def str_def)
  have "valueOf (49 # replicate 309 48) = 10 ^ 309" by (simp add: valueOf_def decimal_zeros)
  moreover have "(2::nat) ^ 1024 \<le> 10 ^ 309" by simp
  ultimately have inf: "toDouble (valueOf (upper ?s)) = Infinity"
    by (simp add: toDouble_overflow)
  have five: "toDouble (valueOf (upper (Single (str ''5'')))) = Num 5"
    by (simp add: valueOf_def str_def toDouble_exact)
  have "parseScheme (49 # replicate 309 48 @ str ''x5'') = Some \<lparr>maxSets = Infinity, maxReps = Num 5\<rparr>"
    using parseScheme_text[OF wf(1,2,3,2,4)] unfolding t inf five .
  moreover have "\<not> startsWithAlt (49 # replicate 309 48 @ str ''x5'')"
    by (rule startsWithAlt_digit) (simp add: isDigit_def)
  ultimately show ?thesis by (simp add: parseRx_def selectScheme_def)
qed

lemma comma_free_scheme:
  assumes "wfBound s" "spaces w1" "isTimes x" "spaces w2" "wfBound r"
  shows "44 \<notin> set (schemeText s w1 x w2 r)"
proof -
  have d: "\<And>d. digits d \<Longrightarrow> 44 \<notin> set d" by (auto simp: digits_def list_all_iff isDigit_def)
  have w: "\<And>w. spaces w \<Longrightarrow> 44 \<notin> set w" by (auto simp: spaces_def list_all_iff isWhiteSpace_def)
  have b: "\<And>s. wfBound s \<Longrightarrow> 44 \<notin> set (boundText s)"
    subgoal for s by (cases s) (auto dest: d w)
    done
  show ?thesis using assms b w by (auto simp: schemeText_def isTimes_def)
qed

lemma parseRx_text:
  assumes "wfBound s" "spaces w1" "isTimes x" "spaces w2" "wfBound r"
  shows "parseRx (Some (schemeText s w1 x w2 r)) =
         Some \<lparr>maxSets = toDouble (valueOf (upper s)), maxReps = toDouble (valueOf (upper r))\<rparr>"
proof -
  obtain y ys where y: "boundText s = y # ys" "isDigit y"
    using bound_start[OF assms(1)] by blast
  then have "schemeText s w1 x w2 r = y # (ys @ w1 @ [x] @ w2 @ boundText r)"
    by (simp add: schemeText_def)
  then have "schemeText s w1 x w2 r \<noteq> []" "\<not> startsWithAlt (schemeText s w1 x w2 r)"
    using startsWithAlt_digit[OF y(2)] by simp_all
  then show ?thesis
    by (simp add: parseRx_def selectScheme_def parseScheme_text[OF assms])
qed

lemma not_schemeText: "\<not> isDigit y \<Longrightarrow> \<not> isSchemeText (y # ys)"
proof
  assume y: "\<not> isDigit y" and "isSchemeText (y # ys)"
  then obtain s w1 x w2 r where s: "wfBound s" "y # ys = schemeText s w1 x w2 r"
    unfolding isSchemeText_def by blast
  obtain a as where "boundText s = a # as" "isDigit a" using bound_start[OF s(1)] by blast
  then show False using s(2) y by (simp add: schemeText_def)
qed

lemma hasScheme_exec: "hasScheme u \<longleftrightarrow> exec schemeRegex u \<noteq> None"
  by (rule exec_hasScheme[symmetric])

section \<open>Claims about parseRx\<close>

text \<open>
  Claim C2. For every string of the shape \<open>A[-B] x C[-D]\<close>, with a single numeral or
  a range on either side, \<open>parseRx\<close> returns the double nearest to the value of the
  upper numeral of each side: \<open>A\<close> and \<open>C\<close> for single numerals, \<open>B\<close> and \<open>D\<close>
  for ranges, and likewise when only one side is a range. Below \<open>2 ^ 53\<close> that double
  is the value itself; from \<open>2 ^ 1024\<close> on it is \<open>Infinity\<close>.
\<close>

theorem parseRx_scheme:
  assumes "wfBound s" "spaces w1" "isTimes x" "spaces w2" "wfBound r"
  shows "parseRx (Some (schemeText s w1 x w2 r)) =
           Some \<lparr>maxSets = toDouble (valueOf (upper s)), maxReps = toDouble (valueOf (upper r))\<rparr>
         \<and> (valueOf (upper s) < 2 ^ 53 \<and> valueOf (upper r) < 2 ^ 53 \<longrightarrow>
              parseRx (Some (schemeText s w1 x w2 r)) =
                Some \<lparr>maxSets = Num (of_nat (valueOf (upper s))),
                      maxReps = Num (of_nat (valueOf (upper r)))\<rparr>)
         \<and> (2 ^ 1024 \<le> valueOf (upper s) \<longrightarrow>
              map_option maxSets (parseRx (Some (schemeText s w1 x w2 r))) = Some Infinity)
         \<and> (2 ^ 1024 \<le> valueOf (upper r) \<longrightarrow>
              map_option maxReps (parseRx (Some (schemeText s w1 x w2 r))) = Some Infinity)"
  by (simp add: parseRx_text[OF assms] toDouble_exact toDouble_overflow)

theorem parseRx_scheme_witness:
  "wfBound (Range (str ''2'') [] [] (str ''3'')) \<and> spaces [32] \<and> isTimes 120 \<and>
   wfBound (Range (str ''10'') [] [] (str ''15'')) \<and>
   valueOf (str ''3'') < 2 ^ 53 \<and> valueOf (str ''15'') < 2 ^ 53 \<and>
   parseRx (Some (str ''2-3 x 10-15'')) = Some \<lparr>maxSets = Num 3, maxReps = Num 15\<rparr>"
  using parseRx_scheme [of "Range (str ''2'') [] [] (str ''3'')" "[32]" 120 "[32]"
      "Range (str ''10'') [] [] (str ''15'')"]
  by (simp add: schemeText_def str_def digits_def spaces_def isTimes_def isDigit_def
      isWhiteSpace_def valueOf_def toDouble_exact)

text \<open>
  The values are not exact on every such string: \<open>9007199254740993x5\<close> is of the
  shape, its first numeral denotes \<open>2 ^ 53 + 1\<close>, and \<open>parseRx\<close> returns
  \<open>2 ^ 53\<close> sets.
\<close>

theorem parseRx_scheme_counterexample:
  "wfBound (Single (str ''9007199254740993'')) \<and> spaces [] \<and> isTimes 120 \<and>
   wfBound (Single (str ''5'')) \<and>
   schemeText (Single (str ''9007199254740993'')) [] 120 [] (Single (str ''5'')) =
     str ''9007199254740993x5'' \<and>
   valueOf (upper (Single (str ''9007199254740993''))) = 9007199254740993 \<and>
   parseRx (Some (str ''9007199254740993x5'')) =
     Some \<lparr>maxSets = Num 9007199254740992, maxReps = Num 5\<rparr> \<and>
   parseRx (Some (str ''9007199254740993x5'')) \<noteq>
     Some \<lparr>maxSets = Num 9007199254740993, maxReps = Num 5\<rparr>"
proof -
  have "wfBound (Single (str ''9007199254740993''))" "spaces []" "isTimes 120"
    "wfBound (Single (str ''5''))"
    "schemeText (Single (str ''9007199254740993'')) [] 120 [] (Single (str ''5'')) =
       str ''9007199254740993x5''"
    "valueOf (upper (Single (str ''9007199254740993''))) = 9007199254740993"
    by (simp_all add: schemeText_def str_def digits_def spaces_def isTimes_def isDigit_def
        valueOf_def)
  then show ?thesis by (simp add: parseRx_large_example)
qed

text \<open>
  Claim C3. After an \<open>alt:\<close> marker, in any case of its letters, \<open>parseRx\<close> parses the
  last of the schemes between commas and nothing else: the result is that of the last
  scheme, trimmed, whatever the marker and the schemes before it are; when the last scheme
  is a text of the shape \<open>A[-B] x C[-D]\<close> with white space around it, the result is the
  doubles of its upper numerals. A \<open>/side\<close> suffix, in any case of its letters, does not
  change the result on any string, and it is stripped before the match: when the first
  \<open>/\<close> of a string without marker starts a \<open>/side\<close>, the result is read from the
  string without that \<open>/side\<close>, and a scheme text followed by \<open>/side\<close> gives the
  doubles of its upper numerals. \<open>alt: 3x5, 4x5-6\<close> gives 4 sets of 6,
  \<open>2-3 x 10-15/side\<close> gives 3 sets of 15, \<open>3 x 10/side-15\<close> gives 3 sets of 15, and
  only the first \<open>/side\<close> goes: \<open>3 x 10/side/side-15\<close> gives 3 sets of 10.
\<close>

theorem parseRx_alt_side:
  "(isAltMarker m \<and> list_all (\<lambda>p. 44 \<notin> set p) (ps @ [q]) \<longrightarrow>
      parseRx (Some (m @ joinComma (ps @ [q]))) = parseScheme (trim q))
   \<and> (isAltMarker m \<and> list_all (\<lambda>p. 44 \<notin> set p) ps \<and>
       wfBound s \<and> spaces w1 \<and> isTimes x \<and> spaces w2 \<and> wfBound r \<and> spaces u1 \<and> spaces u2 \<longrightarrow>
      parseRx (Some (m @ joinComma (ps @ [u1 @ schemeText s w1 x w2 r @ u2]))) =
        Some \<lparr>maxSets = toDouble (valueOf (upper s)),
              maxReps = toDouble (valueOf (upper r))\<rparr>)
   \<and> (isSideSuffix e \<longrightarrow> parseRx (Some (t @ e)) = parseRx (Some t))
   \<and> (isSideSuffix e \<and> 47 \<notin> set u \<and> \<not> startsWithAlt (u @ e @ v) \<longrightarrow>
        parseRx (Some (u @ e @ v)) = readScheme (u @ v))
   \<and> (isSideSuffix e \<and> wfBound s \<and> spaces w1 \<and> isTimes x \<and> spaces w2 \<and> wfBound r \<longrightarrow>
        parseRx (Some (schemeText s w1 x w2 r @ e)) =
          Some \<lparr>maxSets = toDouble (valueOf (upper s)),
                maxReps = toDouble (valueOf (upper r))\<rparr>)
   \<and> parseRx (Some (str ''alt: 3x5, 4x5-6'')) = Some \<lparr>maxSets = Num 4, maxReps = Num 6\<rparr>
   \<and> parseRx (Some (str ''2-3 x 10-15/side'')) = Some \<lparr>maxSets = Num 3, maxReps = Num 15\<rparr>
   \<and> parseRx (Some (str ''3 x 10/side-15'')) = Some \<lparr>maxSets = Num 3, maxReps = Num 15\<rparr>
   \<and> parseRx (Some (str ''3 x 10/side/side-15'')) = Some \<lparr>maxSets = Num 3, maxReps = Num 10\<rparr>"
proof (intro conjI impI)
  assume "isAltMarker m \<and> list_all (\<lambda>p. 44 \<notin> set p) (ps @ [q])"
  then show "parseRx (Some (m @ joinComma (ps @ [q]))) = parseScheme (trim q)"
    by (intro parseRx_alt) simp_all
next
  assume a: "isAltMarker m \<and> list_all (\<lambda>p. 44 \<notin> set p) ps \<and>
       wfBound s \<and> spaces w1 \<and> isTimes x \<and> spaces w2 \<and> wfBound r \<and> spaces u1 \<and> spaces u2"
  let ?q = "u1 @ schemeText s w1 x w2 r @ u2"
  have "44 \<notin> set (schemeText s w1 x w2 r)" using a by (intro comma_free_scheme) simp_all
  moreover have "44 \<notin> set u1" "44 \<notin> set u2"
    using a by (auto simp: spaces_def list_all_iff isWhiteSpace_def)
  ultimately have "list_all (\<lambda>p. 44 \<notin> set p) (ps @ [?q])" using a by simp
  then have "parseRx (Some (m @ joinComma (ps @ [?q]))) = parseScheme (trim ?q)"
    using a by (intro parseRx_alt) simp_all
  moreover have "trim ?q = schemeText s w1 x w2 r" using a by (intro trim_schemeText) simp_all
  ultimately show "parseRx (Some (m @ joinComma (ps @ [?q]))) =
        Some \<lparr>maxSets = toDouble (valueOf (upper s)),
              maxReps = toDouble (valueOf (upper r))\<rparr>"
    using a by (simp add: parseScheme_text)
next
  assume "isSideSuffix e"
  then show "parseRx (Some (t @ e)) = parseRx (Some t)" by (rule parseRx_side)
next
  assume "isSideSuffix e \<and> 47 \<notin> set u \<and> \<not> startsWithAlt (u @ e @ v)"
  then show "parseRx (Some (u @ e @ v)) = readScheme (u @ v)"
    by (intro parseRx_first_side) simp_all
next
  assume a: "isSideSuffix e \<and> wfBound s \<and> spaces w1 \<and> isTimes x \<and> spaces w2 \<and> wfBound r"
  then have "parseRx (Some (schemeText s w1 x w2 r @ e)) = parseRx (Some (schemeText s w1 x w2 r))"
    by (intro parseRx_side) simp
  then show "parseRx (Some (schemeText s w1 x w2 r @ e)) =
          Some \<lparr>maxSets = toDouble (valueOf (upper s)),
                maxReps = toDouble (valueOf (upper r))\<rparr>"
    using a by (simp add: parseRx_text)
next
  show "parseRx (Some (str ''alt: 3x5, 4x5-6'')) = Some \<lparr>maxSets = Num 4, maxReps = Num 6\<rparr>"
    by (rule parseRx_example)
next
  show "parseRx (Some (str ''2-3 x 10-15/side'')) = Some \<lparr>maxSets = Num 3, maxReps = Num 15\<rparr>"
    by (rule parseRx_side_example)
next
  show "parseRx (Some (str ''3 x 10/side-15'')) = Some \<lparr>maxSets = Num 3, maxReps = Num 15\<rparr>"
    by (rule parseRx_inner_side_example)
next
  show "parseRx (Some (str ''3 x 10/side/side-15'')) = Some \<lparr>maxSets = Num 3, maxReps = Num 10\<rparr>"
    by (rule parseRx_second_side_example)
qed

theorem parseRx_alt_side_witness:
  "isAltMarker (str ''Alt:'') \<and> list_all (\<lambda>p. 44 \<notin> set p) [str '' 3x5''] \<and>
   wfBound (Single (str ''4'')) \<and> spaces [] \<and> isTimes 120 \<and>
   wfBound (Range (str ''5'') [] [] (str ''6'')) \<and> spaces [32] \<and>
   parseRx (Some (str ''Alt: 3x5, 4x5-6'')) = Some \<lparr>maxSets = Num 4, maxReps = Num 6\<rparr> \<and>
   parseScheme (trim (str '' 4x5-6'')) = Some \<lparr>maxSets = Num 4, maxReps = Num 6\<rparr> \<and>
   isSideSuffix (str ''/Side'') \<and>
   parseRx (Some (str ''3 x 5-8/Side'')) = parseRx (Some (str ''3 x 5-8'')) \<and>
   47 \<notin> set (str ''4x5'') \<and> \<not> startsWithAlt (str ''4x5/Side-6'') \<and>
   parseRx (Some (str ''4x5/Side-6'')) = readScheme (str ''4x5-6'') \<and>
   parseRx (Some (str ''4x5-6/Side'')) = Some \<lparr>maxSets = Num 4, maxReps = Num 6\<rparr>"
proof -
  have h: "isAltMarker (str ''Alt:'')" "list_all (\<lambda>p. 44 \<notin> set p) [str '' 3x5'']"
    "list_all (\<lambda>p. 44 \<notin> set p) ([str '' 3x5''] @ [str '' 4x5-6''])"
    "wfBound (Single (str ''4''))" "spaces []" "isTimes 120"
    "wfBound (Range (str ''5'') [] [] (str ''6''))" "spaces [32]"
    "isSideSuffix (str ''/Side'')"
    "47 \<notin> set (str ''4x5'')" "\<not> startsWithAlt (str ''4x5'' @ str ''/Side'' @ str ''-6'')"
    by (simp_all add: isAltMarker_def isSideSuffix_def str_def toLowerCase_def digits_def
        spaces_def isTimes_def isDigit_def isWhiteSpace_def startsWithAlt_def)
  note t = parseRx_alt_side [of "str ''Alt:''" "[str '' 3x5'']" "str '' 4x5-6''"
      "Single (str ''4'')" "[]" 120 "[]" "Range (str ''5'') [] [] (str ''6'')" "[32]" "[]"
      "str ''/Side''" "str ''3 x 5-8''" "str ''4x5''" "str ''-6''"]
  have 1: "parseRx (Some (str ''Alt:'' @ joinComma ([str '' 3x5''] @ [str '' 4x5-6'']))) =
      parseScheme (trim (str '' 4x5-6''))"
    using t h by blast
  have 2: "parseRx (Some (str ''Alt:'' @ joinComma ([str '' 3x5''] @
        [[32] @ schemeText (Single (str ''4'')) [] 120 [] (Range (str ''5'') [] [] (str ''6'')) @ []]))) =
      Some \<lparr>maxSets = toDouble (valueOf (upper (Single (str ''4'')))),
            maxReps = toDouble (valueOf (upper (Range (str ''5'') [] [] (str ''6''))))\<rparr>"
    using t h by blast
  have 3: "parseRx (Some (str ''3 x 5-8'' @ str ''/Side'')) = parseRx (Some (str ''3 x 5-8''))"
    using t h by blast
  have 4: "parseRx (Some (str ''4x5'' @ str ''/Side'' @ str ''-6'')) =
      readScheme (str ''4x5'' @ str ''-6'')"
    using t h by blast
  have 5: "parseRx (Some (schemeText (Single (str ''4'')) [] 120 []
        (Range (str ''5'') [] [] (str ''6'')) @ str ''/Side'')) =
      Some \<lparr>maxSets = toDouble (valueOf (upper (Single (str ''4'')))),
            maxReps = toDouble (valueOf (upper (Range (str ''5'') [] [] (str ''6''))))\<rparr>"
    using t h by blast
  have e1: "str ''Alt:'' @ joinComma ([str '' 3x5''] @ [str '' 4x5-6'']) = str ''Alt: 3x5, 4x5-6''"
    by (simp add: str_def)
  have e2: "str ''Alt:'' @ joinComma ([str '' 3x5''] @
        [[32] @ schemeText (Single (str ''4'')) [] 120 [] (Range (str ''5'') [] [] (str ''6'')) @ []])
      = str ''Alt: 3x5, 4x5-6''"
    by (simp add: str_def schemeText_def)
  have e3: "str ''3 x 5-8'' @ str ''/Side'' = str ''3 x 5-8/Side''" by (simp add: str_def)
  have e4: "str ''4x5'' @ str ''/Side'' @ str ''-6'' = str ''4x5/Side-6''"
    "str ''4x5'' @ str ''-6'' = str ''4x5-6''"
    by (simp_all add: str_def)
  have e5: "schemeText (Single (str ''4'')) [] 120 [] (Range (str ''5'') [] [] (str ''6'')) @
      str ''/Side'' = str ''4x5-6/Side''"
    by (simp add: str_def schemeText_def)
  have v: "toDouble (valueOf (str ''4'')) = Num 4" "toDouble (valueOf (str ''6'')) = Num 6"
    by (simp_all add: valueOf_def str_def toDouble_exact)
  show ?thesis
    using h 1 2 3 4 5 unfolding e1 e2 e3 e4 e5 by (simp add: v)
qed

text \<open>
  Claim C4. \<open>parseRx\<close> returns \<open>null\<close> exactly when its argument is undefined, is the
  empty string, or selects a scheme that, once the first \<open>/side\<close> is removed, contains
  no text of the shape \<open>A[-B] x C[-D]\<close>: the match is a search, the shape may stand
  anywhere. On the string itself: without marker and without \<open>/\<close>, \<open>null\<close> means that
  the string contains no such text; when the first \<open>/\<close> of a string without marker
  starts a \<open>/side\<close>, that the string without this \<open>/side\<close> contains none; after an
  \<open>alt:\<close> marker, that the last of the schemes between commas, when it holds no \<open>/\<close>,
  contains none. Every other result holds two numbers, each the double of a natural
  number: never \<open>NaN\<close>, a natural number or \<open>Infinity\<close>. Nothing is thrown.
\<close>

theorem parseRx_none_iff:
  "(parseRx rx = None \<longleftrightarrow>
      rx = None \<or> rx = Some [] \<or> (\<exists>s. rx = Some s \<and> \<not> hasScheme (removeSide (selectScheme s))))
   \<and> (\<not> startsWithAlt s \<and> 47 \<notin> set s \<longrightarrow> (parseRx (Some s) = None \<longleftrightarrow> \<not> hasScheme s))
   \<and> (isSideSuffix e \<and> 47 \<notin> set u \<and> \<not> startsWithAlt (u @ e @ v) \<longrightarrow>
        (parseRx (Some (u @ e @ v)) = None \<longleftrightarrow> \<not> hasScheme (u @ v)))
   \<and> (isAltMarker m \<and> list_all (\<lambda>p. 44 \<notin> set p) (ps @ [q]) \<and> 47 \<notin> set q \<longrightarrow>
        (parseRx (Some (m @ joinComma (ps @ [q]))) = None \<longleftrightarrow> \<not> hasScheme q))
   \<and> (\<forall>y. parseRx rx = Some y \<longrightarrow>
        (\<exists>a b. y = \<lparr>maxSets = toDouble a, maxReps = toDouble b\<rparr>)
        \<and> maxSets y \<noteq> NaN \<and> maxReps y \<noteq> NaN
        \<and> (maxSets y = Infinity \<or> (\<exists>k. maxSets y = Num (of_nat k)))
        \<and> (maxReps y = Infinity \<or> (\<exists>k. maxReps y = Num (of_nat k))))"
proof (intro conjI impI allI)
  show "parseRx rx = None \<longleftrightarrow>
      rx = None \<or> rx = Some [] \<or> (\<exists>s. rx = Some s \<and> \<not> hasScheme (removeSide (selectScheme s)))"
  proof (cases rx)
    case None
    then show ?thesis by (simp add: parseRx_def)
  next
    case (Some s)
    then show ?thesis
      using readScheme_None[of "removeSide (selectScheme s)"]
      by (cases "s = []") (simp_all add: parseRx_def parseScheme_def)
  qed
next
  assume "\<not> startsWithAlt s \<and> 47 \<notin> set s"
  then show "parseRx (Some s) = None \<longleftrightarrow> \<not> hasScheme s"
    by (simp add: parseRx_plain readScheme_None)
next
  assume "isSideSuffix e \<and> 47 \<notin> set u \<and> \<not> startsWithAlt (u @ e @ v)"
  then show "parseRx (Some (u @ e @ v)) = None \<longleftrightarrow> \<not> hasScheme (u @ v)"
    by (simp add: parseRx_first_side readScheme_None)
next
  assume "isAltMarker m \<and> list_all (\<lambda>p. 44 \<notin> set p) (ps @ [q]) \<and> 47 \<notin> set q"
  then show "parseRx (Some (m @ joinComma (ps @ [q]))) = None \<longleftrightarrow> \<not> hasScheme q"
    using parseRx_alt_plain[of m ps q] by (simp add: readScheme_None)
next
  fix y
  assume "parseRx rx = Some y"
  then obtain a b where y: "y = \<lparr>maxSets = toDouble a, maxReps = toDouble b\<rparr>"
    using parseRx_numeric by blast
  then show "\<exists>a b. y = \<lparr>maxSets = toDouble a, maxReps = toDouble b\<rparr>" by blast
  show "maxSets y \<noteq> NaN" "maxReps y \<noteq> NaN" using y by (simp_all add: toDouble_not_NaN)
  show "maxSets y = Infinity \<or> (\<exists>k. maxSets y = Num (of_nat k))"
    using y toDouble_cases[of a] by simp
  show "maxReps y = Infinity \<or> (\<exists>k. maxReps y = Num (of_nat k))"
    using y toDouble_cases[of b] by simp
qed

theorem parseRx_none_iff_witness:
  "parseRx (Some (str ''3 sets of 5'')) = None
   \<and> \<not> hasScheme (removeSide (selectScheme (str ''3 sets of 5'')))
   \<and> \<not> startsWithAlt (str ''do 3x5 now'') \<and> 47 \<notin> set (str ''do 3x5 now'')
   \<and> hasScheme (str ''do 3x5 now'')
   \<and> parseRx (Some (str ''do 3x5 now'')) = Some \<lparr>maxSets = Num 3, maxReps = Num 5\<rparr>
   \<and> isSideSuffix (str ''/side'') \<and> 47 \<notin> set (str ''3'') \<and> \<not> startsWithAlt (str ''3/sidex5'')
   \<and> hasScheme (str ''3x5'') \<and> parseRx (Some (str ''3/sidex5'')) \<noteq> None
   \<and> isAltMarker (str ''alt:'') \<and> list_all (\<lambda>p. 44 \<notin> set p) [str '' 3x5'', str '' junk'']
   \<and> 47 \<notin> set (str '' junk'') \<and> \<not> hasScheme (str '' junk'')
   \<and> parseRx (Some (str ''alt: 3x5, junk'')) = None"
proof -
  have a: "parseRx (Some (str ''3 sets of 5'')) = None"
    by (simp add: scan_eval)
  have b: "parseRx (Some (str ''do 3x5 now'')) = Some \<lparr>maxSets = Num 3, maxReps = Num 5\<rparr>"
    by (simp add: scan_eval)
  have c: "str ''3 sets of 5'' \<noteq> []" by (simp add: str_def)
  have h: "\<not> startsWithAlt (str ''do 3x5 now'')" "47 \<notin> set (str ''do 3x5 now'')"
    "isSideSuffix (str ''/side'')" "47 \<notin> set (str ''3'')"
    "\<not> startsWithAlt (str ''3'' @ str ''/side'' @ str ''x5'')"
    "isAltMarker (str ''alt:'')"
    "list_all (\<lambda>p. 44 \<notin> set p) ([str '' 3x5''] @ [str '' junk''])"
    "47 \<notin> set (str '' junk'')"
    by (simp_all add: startsWithAlt_def isSideSuffix_def isAltMarker_def str_def toLowerCase_def)
  have e: "str ''3'' @ str ''/side'' @ str ''x5'' = str ''3/sidex5''"
    "str ''3'' @ str ''x5'' = str ''3x5''"
    "str ''alt:'' @ joinComma ([str '' 3x5''] @ [str '' junk'']) = str ''alt: 3x5, junk''"
    by (simp_all add: str_def)
  have s: "hasScheme (str ''3x5'')" "\<not> hasScheme (str '' junk'')"
    by (simp_all add: hasScheme_exec scan_eval)
  note t = parseRx_none_iff [of "Some (str ''3 sets of 5'')" "str ''do 3x5 now''"
      "str ''/side''" "str ''3''" "str ''x5''" "str ''alt:''" "[str '' 3x5'']" "str '' junk''"]
  have 1: "\<not> hasScheme (removeSide (selectScheme (str ''3 sets of 5'')))"
    using t a c by simp
  have 2: "hasScheme (str ''do 3x5 now'')" using t h b by simp
  have 3: "parseRx (Some (str ''3/sidex5'')) \<noteq> None"
    using t h s unfolding e by blast
  have 4: "parseRx (Some (str ''alt: 3x5, junk'')) = None"
    using t h s unfolding e by blast
  show ?thesis using a b h 1 2 3 4 s unfolding e by simp
qed

text \<open>
  \<open>null\<close> does not go with the absence of a scheme text in the argument:
  \<open>3/sidex5\<close> contains none and gives 3 sets of 5; \<open>alt: 3x5, junk\<close> contains one
  and gives \<open>null\<close>. Nor with the argument not being a scheme text: \<open>do 3x5 now\<close> is
  none and gives 3 sets of 5. And a result need not hold natural numbers: a numeral of 310
  digits gives \<open>Infinity\<close>.
\<close>

theorem parseRx_none_iff_counterexample:
  "\<not> hasScheme (str ''3/sidex5'')
   \<and> parseRx (Some (str ''3/sidex5'')) = Some \<lparr>maxSets = Num 3, maxReps = Num 5\<rparr>
   \<and> hasScheme (str ''alt: 3x5, junk'')
   \<and> parseRx (Some (str ''alt: 3x5, junk'')) = None
   \<and> \<not> isSchemeText (str ''do 3x5 now'')
   \<and> parseRx (Some (str ''do 3x5 now'')) = Some \<lparr>maxSets = Num 3, maxReps = Num 5\<rparr>
   \<and> parseRx (Some (49 # replicate 309 48 @ str ''x5'')) =
       Some \<lparr>maxSets = Infinity, maxReps = Num 5\<rparr>"
proof -
  have "\<not> hasScheme (str ''3/sidex5'')" "hasScheme (str ''alt: 3x5, junk'')"
    by (simp_all add: hasScheme_exec scan_eval)
  moreover have "parseRx (Some (str ''3/sidex5'')) = Some \<lparr>maxSets = Num 3, maxReps = Num 5\<rparr>"
    "parseRx (Some (str ''alt: 3x5, junk'')) = None"
    "parseRx (Some (str ''do 3x5 now'')) = Some \<lparr>maxSets = Num 3, maxReps = Num 5\<rparr>"
    by (simp_all add: scan_eval)
  moreover have "\<not> isSchemeText (str ''do 3x5 now'')"
    unfolding str_def by (simp add: not_schemeText isDigit_def)
  ultimately show ?thesis using parseRx_infinity_example by simp
qed

section \<open>Claims about the session rotation, the entries and the form\<close>

lemma findIndex_None: "findIndex P xs = None \<longleftrightarrow> \<not> list_ex P xs"
  by (induction xs) (auto split: option.splits)

lemma findIndex_first:
  "k < length xs \<Longrightarrow> P (xs ! k) \<Longrightarrow> list_all (\<lambda>x. \<not> P x) (take k xs) \<Longrightarrow> findIndex P xs = Some k"
proof (induction xs arbitrary: k)
  case Nil
  then show ?case by simp
next
  case (Cons x xs)
  show ?case
  proof (cases k)
    case 0
    then show ?thesis using Cons.prems by simp
  next
    case (Suc j)
    then have "findIndex P xs = Some j" "\<not> P x"
      using Cons.prems by (auto intro: Cons.IH)
    then show ?thesis using Suc by simp
  qed
qed

lemma findIndex_Some:
  "findIndex P xs = Some k \<Longrightarrow> k < length xs \<and> P (xs ! k) \<and> list_all (\<lambda>x. \<not> P x) (take k xs)"
proof (induction xs arbitrary: k)
  case Nil
  then show ?case by simp
next
  case (Cons x xs)
  show ?case
  proof (cases "P x")
    case True
    then show ?thesis using Cons.prems by simp
  next
    case False
    then obtain j where j: "findIndex P xs = Some j" "k = Suc j"
      using Cons.prems by (auto split: option.splits)
    then show ?thesis using Cons.IH[OF j(1)] False by simp
  qed
qed

lemma isToday_iff: "isToday clk t \<longleftrightarrow> localDate clk t = localDate clk (now clk)"
  by (auto simp: isToday_def prod_eq_iff)

lemma findIndex_catalog:
  "catalogIndex SESSIONS s k \<Longrightarrow> findIndex (\<lambda>x. Some (sessionId x) = Some s) SESSIONS = Some k"
  unfolding catalogIndex_def by (intro findIndex_first) simp_all

text \<open>
  Claim C1. \<open>determineCurrentSession\<close> returns 0 when the lookup fails, when there is no
  entry, when the newest entry has no session identifier (or an empty one), and when that
  identifier is not in the catalogue. Otherwise, with \<open>k\<close> the index of that session in
  the catalogue: when the local calendar date of the entry (a reading of the clock
  standing for a missing date) is today's, it returns \<open>k\<close>; when it is not, it returns
  \<open>(k + 1) mod length SESSIONS\<close>, which is an index of the catalogue and is 0 after the
  last session.
\<close>

theorem determineCurrentSession_cases:
  "determineCurrentSession SESSIONS clk Failed = 0
   \<and> determineCurrentSession SESSIONS clk (Snapshot []) = 0
   \<and> (session d = None \<or> session d = Some [] \<longrightarrow>
        determineCurrentSession SESSIONS clk (Snapshot ((i, d) # older)) = 0)
   \<and> (session d = Some s \<and> \<not> inCatalog SESSIONS s \<longrightarrow>
        determineCurrentSession SESSIONS clk (Snapshot ((i, d) # older)) = 0)
   \<and> (session d = Some s \<and> s \<noteq> [] \<and> catalogIndex SESSIONS s k \<and>
       localDate clk (lastDateOf clk d) = localDate clk (now clk) \<longrightarrow>
        determineCurrentSession SESSIONS clk (Snapshot ((i, d) # older)) = k)
   \<and> (session d = Some s \<and> s \<noteq> [] \<and> catalogIndex SESSIONS s k \<and>
       localDate clk (lastDateOf clk d) \<noteq> localDate clk (now clk) \<longrightarrow>
        determineCurrentSession SESSIONS clk (Snapshot ((i, d) # older)) = (k + 1) mod length SESSIONS
        \<and> determineCurrentSession SESSIONS clk (Snapshot ((i, d) # older)) < length SESSIONS
        \<and> (Suc k = length SESSIONS \<longrightarrow>
             determineCurrentSession SESSIONS clk (Snapshot ((i, d) # older)) = 0))"
proof (intro conjI impI)
  show "determineCurrentSession SESSIONS clk Failed = 0"
    by (simp add: determineCurrentSession_def)
  show "determineCurrentSession SESSIONS clk (Snapshot []) = 0"
    by (simp add: determineCurrentSession_def)
next
  assume "session d = None \<or> session d = Some []"
  then show "determineCurrentSession SESSIONS clk (Snapshot ((i, d) # older)) = 0"
    by (auto simp: determineCurrentSession_def truthy_def)
next
  assume a: "session d = Some s \<and> \<not> inCatalog SESSIONS s"
  then have "findIndex (\<lambda>x. Some (sessionId x) = session d) SESSIONS = None"
    by (simp add: findIndex_None inCatalog_def)
  then show "determineCurrentSession SESSIONS clk (Snapshot ((i, d) # older)) = 0"
    by (simp add: determineCurrentSession_def)
next
  assume a: "session d = Some s \<and> s \<noteq> [] \<and> catalogIndex SESSIONS s k \<and>
       localDate clk (lastDateOf clk d) = localDate clk (now clk)"
  then have "findIndex (\<lambda>x. Some (sessionId x) = session d) SESSIONS = Some k"
    using findIndex_catalog by simp
  then show "determineCurrentSession SESSIONS clk (Snapshot ((i, d) # older)) = k"
    using a by (simp add: determineCurrentSession_def truthy_def isToday_iff)
next
  assume a: "session d = Some s \<and> s \<noteq> [] \<and> catalogIndex SESSIONS s k \<and>
       localDate clk (lastDateOf clk d) \<noteq> localDate clk (now clk)"
  then have "findIndex (\<lambda>x. Some (sessionId x) = session d) SESSIONS = Some k"
    using findIndex_catalog by simp
  then have r: "determineCurrentSession SESSIONS clk (Snapshot ((i, d) # older)) = (k + 1) mod length SESSIONS"
    using a by (simp add: determineCurrentSession_def truthy_def isToday_iff)
  have "k < length SESSIONS" using a by (simp add: catalogIndex_def)
  then have "0 < length SESSIONS" by (cases SESSIONS) simp_all
  then have "(k + 1) mod length SESSIONS < length SESSIONS" by (rule mod_less_divisor)
  then show "determineCurrentSession SESSIONS clk (Snapshot ((i, d) # older)) = (k + 1) mod length SESSIONS"
    "determineCurrentSession SESSIONS clk (Snapshot ((i, d) # older)) < length SESSIONS"
    using r by simp_all
  assume "Suc k = length SESSIONS"
  then show "determineCurrentSession SESSIONS clk (Snapshot ((i, d) # older)) = 0"
    using r by simp
qed

text \<open>
  Claim C9. When the newest entry has a session identifier of the catalogue and no
  timestamp, a reading of the clock stands for its date: the first of the two readings
  \<open>determineCurrentSession\<close> makes, the second being today. When both readings fall on
  the same local calendar day the entry counts as dated today and the index of its session
  is returned unchanged; when they do not, the entry does not count as dated today and
  the index of the next session is returned.
\<close>

theorem determineCurrentSession_no_date:
  "session d = Some s \<and> s \<noteq> [] \<and> catalogIndex SESSIONS s k \<and> date d = None \<longrightarrow>
     lastDateOf clk d = earlier clk
     \<and> (localDate clk (earlier clk) = localDate clk (now clk) \<longrightarrow>
          isToday clk (lastDateOf clk d) \<and>
          determineCurrentSession SESSIONS clk (Snapshot ((i, d) # older)) = k)
     \<and> (localDate clk (earlier clk) \<noteq> localDate clk (now clk) \<longrightarrow>
          \<not> isToday clk (lastDateOf clk d) \<and>
          determineCurrentSession SESSIONS clk (Snapshot ((i, d) # older)) =
            (k + 1) mod length SESSIONS)"
proof
  assume a: "session d = Some s \<and> s \<noteq> [] \<and> catalogIndex SESSIONS s k \<and> date d = None"
  then have l: "lastDateOf clk d = earlier clk" by (simp add: lastDateOf_def)
  have f: "findIndex (\<lambda>x. Some (sessionId x) = session d) SESSIONS = Some k"
    using a findIndex_catalog by simp
  have r: "determineCurrentSession SESSIONS clk (Snapshot ((i, d) # older)) =
      (if isToday clk (earlier clk) then k else (k + 1) mod length SESSIONS)"
    using a f l by (simp add: determineCurrentSession_def truthy_def)
  show "lastDateOf clk d = earlier clk
     \<and> (localDate clk (earlier clk) = localDate clk (now clk) \<longrightarrow>
          isToday clk (lastDateOf clk d) \<and>
          determineCurrentSession SESSIONS clk (Snapshot ((i, d) # older)) = k)
     \<and> (localDate clk (earlier clk) \<noteq> localDate clk (now clk) \<longrightarrow>
          \<not> isToday clk (lastDateOf clk d) \<and>
          determineCurrentSession SESSIONS clk (Snapshot ((i, d) # older)) =
            (k + 1) mod length SESSIONS)"
    using l r by (simp add: isToday_iff)
qed

text \<open>
  The entry does not always count as dated today: with the first reading in the last
  millisecond of a day and the second at the following midnight, an entry of the second
  session without timestamp gives the third session.
\<close>

theorem determineCurrentSession_no_date_counterexample:
  "session (exampleEntry ''row'' None (Some ''session_b'')) = Some ''session_b'' \<and>
   catalogIndex exampleSessions ''session_b'' 1 \<and>
   date (exampleEntry ''row'' None (Some ''session_b'')) = None \<and>
   lastDateOf midnightClock (exampleEntry ''row'' None (Some ''session_b'')) = 1728086399999 \<and>
   now midnightClock = 1728086400000 \<and>
   \<not> isToday midnightClock (lastDateOf midnightClock (exampleEntry ''row'' None (Some ''session_b''))) \<and>
   determineCurrentSession exampleSessions midnightClock
     (Snapshot [(''e'', exampleEntry ''row'' None (Some ''session_b''))]) = 2"
  by (simp add: determineCurrentSession_def truthy_def isToday_def lastDateOf_def
      catalogIndex_def exampleSessions_def exampleEntry_def midnightClock_def)

text \<open>
  Claim C10. With no user signed in, or no lift selected, a click on the save button
  changes nothing: the form is not read, the collection is not written, no message is
  shown.
\<close>

theorem saveClick_guard:
  "currentUser st = None \<or> currentLiftId st = None \<or> currentLiftId st = Some [] \<longrightarrow>
     saveClick SESSIONS toStr rp history st = st"
  by (auto simp: saveClick_def truthy_def)

lemma todayEntries_iff:
  "(x \<in> todayEntries (loadTodayEntries (todayQuery clk ds) st) \<longleftrightarrow>
      (\<exists>i e t. (i, e) \<in> set ds \<and> lift e = x \<and> date e = Some t \<and> startOfDay clk (now clk) \<le> t))"
  by (auto simp: loadTodayEntries_def todayQuery_def whereDateAtLeast_def split: option.splits)

lemma db_resetSetGroups [simp]: "db (resetSetGroups st) = db st"
  by (simp add: resetSetGroups_def)

lemma db_loadHistory [simp]: "db (loadHistory toStr h st) = db st"
  by (simp add: loadHistory_def split: fetched.splits option.splits list.splits)

lemma db_applyRx [simp]: "db (applyRx toStr rx st) = db st"
  by (simp add: applyRx_def split: option.splits list.splits)

lemma saveClick_edit_db:
  assumes "editingEntryId st = Some editing" "editing \<noteq> []"
  shows "db (saveClick SESSIONS toStr rp history st) = db st \<or>
         db (saveClick SESSIONS toStr rp history st) =
           patchDoc editing (List.map_filter readRow (rows st)) (trim (notesInput st)) (db st)"
  using assms
  by (auto simp: saveClick_def writeEntry_def updateDoc_def patchDoc_def truthy_def Let_def
      split: option.splits if_splits)

lemma saveClick_edit_done:
  assumes "editingEntryId st = Some editing" "editing \<noteq> []"
    "currentUser st \<noteq> None" "truthy (currentLiftId st)"
    "rows st \<noteq> []" "list_all (\<lambda>r. readRow r \<noteq> None) (rows st)"
    "\<not> writeFails rp" "editing \<in> fst ` set (db st)"
  shows "db (saveClick SESSIONS toStr rp history st) =
           patchDoc editing (List.map_filter readRow (rows st)) (trim (notesInput st)) (db st)"
proof -
  obtain r rs where r: "rows st = r # rs" using assms(5) by (cases "rows st") auto
  then have "readRow r \<noteq> None" using assms(6) by simp
  then have ne: "List.map_filter readRow (rows st) \<noteq> []"
    using r by (auto simp: List.map_filter_simps)
  obtain l where l: "currentLiftId st = Some l" "l \<noteq> []"
    using assms(4) by (auto simp: truthy_def split: option.splits)
  obtain u where u: "currentUser st = Some u" using assms(3) by auto
  show ?thesis
    using assms(1,2,6,7,8) ne l u
    by (simp add: saveClick_def writeEntry_def updateDoc_def patchDoc_def truthy_def Let_def
        split: option.splits)
qed

lemma patchDoc_frame:
  "map fst (patchDoc i gs n ds) = map fst ds \<and>
   map (\<lambda>(j, e). (lift e, date e, session e)) (patchDoc i gs n ds) =
     map (\<lambda>(j, e). (lift e, date e, session e)) ds \<and>
   filter (\<lambda>(j, e). j \<noteq> i) (patchDoc i gs n ds) = filter (\<lambda>(j, e). j \<noteq> i) ds"
  by (induction ds) (auto simp: patchDoc_def)

text \<open>
  Claim C5. While an entry is being edited, a click on the save button leaves the
  identifiers of all documents, and the lift, the date and the session of each, as they
  were, and leaves every other document as it was; when the form is valid and the store
  accepts the write, the collection is the old one with the groups and the notes of the
  edited entry replaced by those of the form.
\<close>

theorem saveClick_edit_frame:
  "editingEntryId st = Some editing \<and> editing \<noteq> [] \<longrightarrow>
     map fst (db (saveClick SESSIONS toStr rp history st)) = map fst (db st) \<and>
     map (\<lambda>(j, e). (lift e, date e, session e)) (db (saveClick SESSIONS toStr rp history st)) =
       map (\<lambda>(j, e). (lift e, date e, session e)) (db st) \<and>
     filter (\<lambda>(j, e). j \<noteq> editing) (db (saveClick SESSIONS toStr rp history st)) =
       filter (\<lambda>(j, e). j \<noteq> editing) (db st) \<and>
     (currentUser st \<noteq> None \<and> truthy (currentLiftId st) \<and> rows st \<noteq> [] \<and>
      list_all (\<lambda>r. readRow r \<noteq> None) (rows st) \<and> \<not> writeFails rp \<and>
      editing \<in> fst ` set (db st) \<longrightarrow>
        db (saveClick SESSIONS toStr rp history st) =
          patchDoc editing (List.map_filter readRow (rows st)) (trim (notesInput st)) (db st))"
proof (intro impI)
  assume a: "editingEntryId st = Some editing \<and> editing \<noteq> []"
  have d: "db (saveClick SESSIONS toStr rp history st) = db st \<or>
         db (saveClick SESSIONS toStr rp history st) =
           patchDoc editing (List.map_filter readRow (rows st)) (trim (notesInput st)) (db st)"
    using a by (intro saveClick_edit_db) simp_all
  have f: "map fst (db (saveClick SESSIONS toStr rp history st)) = map fst (db st) \<and>
     map (\<lambda>(j, e). (lift e, date e, session e)) (db (saveClick SESSIONS toStr rp history st)) =
       map (\<lambda>(j, e). (lift e, date e, session e)) (db st) \<and>
     filter (\<lambda>(j, e). j \<noteq> editing) (db (saveClick SESSIONS toStr rp history st)) =
       filter (\<lambda>(j, e). j \<noteq> editing) (db st)"
    using d patchDoc_frame[of editing "List.map_filter readRow (rows st)" "trim (notesInput st)" "db st"]
    by (elim disjE) simp_all
  have g: "currentUser st \<noteq> None \<and> truthy (currentLiftId st) \<and> rows st \<noteq> [] \<and>
      list_all (\<lambda>r. readRow r \<noteq> None) (rows st) \<and> \<not> writeFails rp \<and>
      editing \<in> fst ` set (db st) \<longrightarrow>
        db (saveClick SESSIONS toStr rp history st) =
          patchDoc editing (List.map_filter readRow (rows st)) (trim (notesInput st)) (db st)"
    using a by (auto intro: saveClick_edit_done)
  show "map fst (db (saveClick SESSIONS toStr rp history st)) = map fst (db st) \<and>
     map (\<lambda>(j, e). (lift e, date e, session e)) (db (saveClick SESSIONS toStr rp history st)) =
       map (\<lambda>(j, e). (lift e, date e, session e)) (db st) \<and>
     filter (\<lambda>(j, e). j \<noteq> editing) (db (saveClick SESSIONS toStr rp history st)) =
       filter (\<lambda>(j, e). j \<noteq> editing) (db st) \<and>
     (currentUser st \<noteq> None \<and> truthy (currentLiftId st) \<and> rows st \<noteq> [] \<and>
      list_all (\<lambda>r. readRow r \<noteq> None) (rows st) \<and> \<not> writeFails rp \<and>
      editing \<in> fst ` set (db st) \<longrightarrow>
        db (saveClick SESSIONS toStr rp history st) =
          patchDoc editing (List.map_filter readRow (rows st)) (trim (notesInput st)) (db st))"
    using f g by blast
qed

text \<open>
  Claim C7. For a signed-in user, a history whose newest entry has a first group, and a
  form with a first row: \<open>loadHistory\<close> writes the weight of that group into the weight
  input of the first row when that input is empty, and changes nothing when it is not.
  With an empty history \<open>loadHistory\<close> changes nothing, and \<open>selectLift\<close> leaves one
  row that holds the sets and reps read from the prescription, no weight, and no notes.
\<close>

theorem loadHistory_weight:
  "(currentUser st \<noteq> None \<and> setGroups e = g # gs \<and> rows st = firstRow # others \<longrightarrow>
      loadHistory toStr (Snapshot ((i, e) # older)) st =
        (if inputWeight firstRow = []
         then st\<lparr>rows := firstRow\<lparr>inputWeight := toStr (weight g)\<rparr> # others\<rparr>
         else st))
   \<and> loadHistory toStr (Snapshot []) st = st
   \<and> (liftId \<in> set LIFTS \<longrightarrow>
        rows (selectLift LIFTS toStr liftId rx (Snapshot []) st) =
          [case parseRx rx of
             None \<Rightarrow> emptyRow
           | Some parsed \<Rightarrow> \<lparr>inputSets = toStr (maxSets parsed),
                              inputReps = toStr (maxReps parsed), inputWeight = []\<rparr>]
        \<and> notesInput (selectLift LIFTS toStr liftId rx (Snapshot []) st) = [])"
  by (auto simp: loadHistory_def selectLift_def applyRx_def resetSetGroups_def emptyRow_def Let_def
      split: option.splits)

lemmas example_defs = exampleSessions_def exampleClock_def exampleEntry_def exampleApp_def
  exampleReply_def exampleToStr_def

theorem determineCurrentSession_cases_witness:
  "catalogIndex exampleSessions ''session_b'' 1 \<and> catalogIndex exampleSessions ''session_c'' 2 \<and>
   \<not> inCatalog exampleSessions ''session_x'' \<and>
   determineCurrentSession exampleSessions exampleClock
     (Snapshot [(''e'', exampleEntry ''row'' (Some 1728043200000) (Some ''session_b''))]) = 1 \<and>
   determineCurrentSession exampleSessions exampleClock
     (Snapshot [(''e'', exampleEntry ''row'' (Some 1727956800000) (Some ''session_b''))]) = 2 \<and>
   determineCurrentSession exampleSessions exampleClock
     (Snapshot [(''e'', exampleEntry ''row'' (Some 1727956800000) (Some ''session_c''))]) = 0 \<and>
   determineCurrentSession exampleSessions exampleClock
     (Snapshot [(''e'', exampleEntry ''row'' (Some 1728043200000) (Some ''session_x''))]) = 0 \<and>
   determineCurrentSession exampleSessions exampleClock
     (Snapshot [(''e'', exampleEntry ''row'' (Some 1728043200000) None)]) = 0"
proof -
  have c: "catalogIndex exampleSessions ''session_b'' 1"
    "catalogIndex exampleSessions ''session_c'' 2"
    "\<not> inCatalog exampleSessions ''session_x''"
    by (simp_all add: catalogIndex_def inCatalog_def exampleSessions_def)
  have l: "length exampleSessions = 3" by (simp add: exampleSessions_def)
  have d: "localDate exampleClock
        (lastDateOf exampleClock (exampleEntry ''row'' (Some 1728043200000) (Some ''session_b'')))
      = localDate exampleClock (now exampleClock)"
    "localDate exampleClock
        (lastDateOf exampleClock (exampleEntry ''row'' (Some 1727956800000) (Some ''session_b'')))
      \<noteq> localDate exampleClock (now exampleClock)"
    "localDate exampleClock
        (lastDateOf exampleClock (exampleEntry ''row'' (Some 1727956800000) (Some ''session_c'')))
      \<noteq> localDate exampleClock (now exampleClock)"
    by (simp_all add: lastDateOf_def exampleClock_def exampleEntry_def)
  have s: "\<And>l t x. session (exampleEntry l t x) = x" by (simp add: exampleEntry_def)
  show ?thesis
    using c d
      determineCurrentSession_cases [of exampleSessions exampleClock
        "exampleEntry ''row'' (Some 1728043200000) (Some ''session_b'')" "''e''" "[]" "''session_b''" 1]
      determineCurrentSession_cases [of exampleSessions exampleClock
        "exampleEntry ''row'' (Some 1727956800000) (Some ''session_b'')" "''e''" "[]" "''session_b''" 1]
      determineCurrentSession_cases [of exampleSessions exampleClock
        "exampleEntry ''row'' (Some 1727956800000) (Some ''session_c'')" "''e''" "[]" "''session_c''" 2]
      determineCurrentSession_cases [of exampleSessions exampleClock
        "exampleEntry ''row'' (Some 1728043200000) (Some ''session_x'')" "''e''" "[]" "''session_x''" 0]
      determineCurrentSession_cases [of exampleSessions exampleClock
        "exampleEntry ''row'' (Some 1728043200000) None" "''e''" "[]" "''session_x''" 0]
    by (simp add: s l)
qed

theorem determineCurrentSession_no_date_witness:
  "catalogIndex exampleSessions ''session_b'' 1 \<and>
   date (exampleEntry ''row'' None (Some ''session_b'')) = None \<and>
   localDate exampleClock (earlier exampleClock) = localDate exampleClock (now exampleClock) \<and>
   determineCurrentSession exampleSessions exampleClock
     (Snapshot [(''e'', exampleEntry ''row'' None (Some ''session_b''))]) = 1 \<and>
   localDate midnightClock (earlier midnightClock) \<noteq> localDate midnightClock (now midnightClock) \<and>
   determineCurrentSession exampleSessions midnightClock
     (Snapshot [(''e'', exampleEntry ''row'' None (Some ''session_b''))]) = 2"
proof -
  have c: "catalogIndex exampleSessions ''session_b'' 1"
    by (simp add: catalogIndex_def exampleSessions_def)
  have s: "session (exampleEntry ''row'' None (Some ''session_b'')) = Some ''session_b''"
    "date (exampleEntry ''row'' None (Some ''session_b'')) = None"
    by (simp_all add: exampleEntry_def)
  have d: "localDate exampleClock (earlier exampleClock) = localDate exampleClock (now exampleClock)"
    "localDate midnightClock (earlier midnightClock) \<noteq> localDate midnightClock (now midnightClock)"
    by (simp_all add: exampleClock_def midnightClock_def)
  have n: "length exampleSessions = 3" by (simp add: exampleSessions_def)
  have 1: "determineCurrentSession exampleSessions exampleClock
     (Snapshot [(''e'', exampleEntry ''row'' None (Some ''session_b''))]) = 1"
    using c s d(1) determineCurrentSession_no_date [of "exampleEntry ''row'' None (Some ''session_b'')"
        "''session_b''" exampleSessions 1 exampleClock "''e''" "[]"]
    by simp
  have 2: "determineCurrentSession exampleSessions midnightClock
     (Snapshot [(''e'', exampleEntry ''row'' None (Some ''session_b''))]) = 2"
    using c s d(2) n determineCurrentSession_no_date [of "exampleEntry ''row'' None (Some ''session_b'')"
        "''session_b''" exampleSessions 1 midnightClock "''e''" "[]"]
    by simp
  show ?thesis using c s d 1 2 by simp
qed

theorem saveClick_guard_witness:
  "currentUser (exampleApp\<lparr>currentUser := None\<rparr>) = None \<and>
   saveClick exampleSessions exampleToStr exampleReply (Snapshot []) (exampleApp\<lparr>currentUser := None\<rparr>)
     = exampleApp\<lparr>currentUser := None\<rparr> \<and>
   currentLiftId (exampleApp\<lparr>currentLiftId := None\<rparr>) = None \<and>
   saveClick exampleSessions exampleToStr exampleReply (Snapshot []) (exampleApp\<lparr>currentLiftId := None\<rparr>)
     = exampleApp\<lparr>currentLiftId := None\<rparr>"
  using saveClick_guard [of "exampleApp\<lparr>currentUser := None\<rparr>" exampleSessions exampleToStr
      exampleReply "Snapshot []"]
    saveClick_guard [of "exampleApp\<lparr>currentLiftId := None\<rparr>" exampleSessions exampleToStr
      exampleReply "Snapshot []"]
  by simp

lemmas number_eval = parseInt_def parseFloat_def exponentOf_def double_eval radixValue_def
  digitValue_def isWhiteSpace_def isDigit_def canonicalize_def falsy_def readRow_def str_def Let_def

lemma readRow_example:
  "readRow \<lparr>inputSets = str ''4'', inputReps = str ''6'', inputWeight = str ''102.5''\<rparr> =
     Some \<lparr>sets = Num 4, reps = Num 6, weight = Num (205 / 2)\<rparr>"
  by (simp add: number_eval)

lemma readRow_negative:
  "readRow \<lparr>inputSets = str ''-3'', inputReps = str ''5'', inputWeight = str ''-10''\<rparr> =
     Some \<lparr>sets = Num (- 3), reps = Num 5, weight = Num (- 10)\<rparr>"
  by (simp add: number_eval)

lemma readRow_blank:
  "readRow \<lparr>inputSets = str ''4'', inputReps = str ''6'', inputWeight = []\<rparr> = None"
  by (simp add: number_eval)

lemma trim_example: "trim (str '' felt good '') = str ''felt good''"
  by (simp add: trim_def str_def isWhiteSpace_def)

theorem saveClick_edit_frame_witness:
  "editingEntryId editingApp = Some ''e1'' \<and> ''e1'' \<noteq> [] \<and> currentUser editingApp \<noteq> None \<and>
   truthy (currentLiftId editingApp) \<and> rows editingApp \<noteq> [] \<and>
   list_all (\<lambda>r. readRow r \<noteq> None) (rows editingApp) \<and> \<not> writeFails exampleReply \<and>
   ''e1'' \<in> fst ` set (db editingApp) \<and>
   db (saveClick exampleSessions exampleToStr exampleReply (Snapshot []) editingApp) =
     [(''e1'', \<lparr>lift = ''row'', date = Some 1727956800000,
               setGroups = [\<lparr>sets = Num 4, reps = Num 6, weight = Num (205 / 2)\<rparr>],
               entryNotes = str ''felt good'', session = Some ''session_b''\<rparr>),
      (''e2'', exampleEntry ''dips'' (Some 1727870400000) (Some ''session_a''))]"
proof -
  have h: "editingEntryId editingApp = Some ''e1''" "''e1'' \<noteq> []" "currentUser editingApp \<noteq> None"
    "truthy (currentLiftId editingApp)" "rows editingApp \<noteq> []"
    "list_all (\<lambda>r. readRow r \<noteq> None) (rows editingApp)" "\<not> writeFails exampleReply"
    "''e1'' \<in> fst ` set (db editingApp)"
    by (simp_all add: editingApp_def exampleApp_def exampleReply_def truthy_def readRow_example)
  have "db (saveClick exampleSessions exampleToStr exampleReply (Snapshot []) editingApp) =
      patchDoc ''e1'' (List.map_filter readRow (rows editingApp)) (trim (notesInput editingApp))
        (db editingApp)"
    using h saveClick_edit_frame [of editingApp "''e1''" exampleSessions exampleToStr exampleReply
        "Snapshot []"]
    by blast
  moreover have "patchDoc ''e1'' (List.map_filter readRow (rows editingApp))
        (trim (notesInput editingApp)) (db editingApp) =
     [(''e1'', \<lparr>lift = ''row'', date = Some 1727956800000,
               setGroups = [\<lparr>sets = Num 4, reps = Num 6, weight = Num (205 / 2)\<rparr>],
               entryNotes = str ''felt good'', session = Some ''session_b''\<rparr>),
      (''e2'', exampleEntry ''dips'' (Some 1727870400000) (Some ''session_a''))]"
    by (simp add: editingApp_def exampleApp_def patchDoc_def List.map_filter_simps readRow_example
        trim_example exampleEntry_def)
  ultimately show ?thesis using h by simp
qed

text \<open>
  Claim C6. After \<open>loadTodayEntries\<close>, a lift is in \<open>todayEntries\<close> exactly when some
  entry of the collection has that lift and a timestamp at or after the local midnight of
  the current day; a squat entry at noon today and another lift's entry of yesterday give
  the set that holds squat alone.
\<close>

theorem loadTodayEntries_today:
  "(x \<in> todayEntries (loadTodayEntries (todayQuery clk ds) st) \<longleftrightarrow>
      (\<exists>i e t. (i, e) \<in> set ds \<and> lift e = x \<and> date e = Some t \<and> startOfDay clk (now clk) \<le> t))
   \<and> todayEntries (loadTodayEntries
        (todayQuery exampleClock
           [(''e1'', exampleEntry ''squat'' (Some 1728043200000) None),
            (''e2'', exampleEntry ''bench'' (Some 1727956800000) None)])
        exampleApp) = {''squat''}"
proof
  show "x \<in> todayEntries (loadTodayEntries (todayQuery clk ds) st) \<longleftrightarrow>
      (\<exists>i e t. (i, e) \<in> set ds \<and> lift e = x \<and> date e = Some t \<and> startOfDay clk (now clk) \<le> t)"
    by (rule todayEntries_iff)
  show "todayEntries (loadTodayEntries
        (todayQuery exampleClock
           [(''e1'', exampleEntry ''squat'' (Some 1728043200000) None),
            (''e2'', exampleEntry ''bench'' (Some 1727956800000) None)])
        exampleApp) = {''squat''}"
    by (simp add: loadTodayEntries_def todayQuery_def whereDateAtLeast_def exampleClock_def
        exampleEntry_def)
qed

theorem loadHistory_weight_witness:
  "currentUser exampleApp \<noteq> None \<and>
   setGroups (exampleEntry ''row'' (Some 1727956800000) None) =
     [\<lparr>sets = Num 3, reps = Num 5, weight = Num 100\<rparr>] \<and>
   rows (loadHistory exampleToStr
           (Snapshot [(''e1'', exampleEntry ''row'' (Some 1727956800000) None)]) exampleApp) =
     [\<lparr>inputSets = str ''4'', inputReps = str ''6'', inputWeight = str ''100''\<rparr>] \<and>
   rows (loadHistory exampleToStr
           (Snapshot [(''e1'', exampleEntry ''row'' (Some 1727956800000) None)])
           (exampleApp\<lparr>rows := [\<lparr>inputSets = [], inputReps = [], inputWeight = str ''95''\<rparr>]\<rparr>)) =
     [\<lparr>inputSets = [], inputReps = [], inputWeight = str ''95''\<rparr>] \<and>
   ''row'' \<in> set [''row'', ''dips''] \<and>
   rows (selectLift [''row'', ''dips''] exampleToStr ''row'' None (Snapshot []) exampleApp) = [emptyRow]"
proof -
  let ?e = "exampleEntry ''row'' (Some 1727956800000) None"
  let ?r = "\<lparr>inputSets = str ''4'', inputReps = str ''6'', inputWeight = []\<rparr>"
  let ?u = "\<lparr>inputSets = [], inputReps = [], inputWeight = str ''95''\<rparr>"
  have h: "currentUser exampleApp \<noteq> None"
    "setGroups ?e = [\<lparr>sets = Num 3, reps = Num 5, weight = Num 100\<rparr>]"
    "rows exampleApp = [?r]" "currentUser (exampleApp\<lparr>rows := [?u]\<rparr>) \<noteq> None"
    "rows (exampleApp\<lparr>rows := [?u]\<rparr>) = [?u]"
    by (simp_all add: exampleApp_def exampleEntry_def)
  have n: "str ''95'' \<noteq> []" "parseRx None = None" by (simp_all add: str_def parseRx_def)
  show ?thesis
    using h
      loadHistory_weight [of exampleApp ?e "\<lparr>sets = Num 3, reps = Num 5, weight = Num 100\<rparr>" "[]"
        ?r "[]" exampleToStr "''e1''" "[]" "''row''" "[''row'', ''dips'']" None]
      loadHistory_weight [of "exampleApp\<lparr>rows := [?u]\<rparr>" ?e
        "\<lparr>sets = Num 3, reps = Num 5, weight = Num 100\<rparr>" "[]"
        ?u "[]" exampleToStr "''e1''" "[]" "''row''" "[''row'', ''dips'']" None]
    by (simp add: n exampleToStr_def)
qed

text \<open>What the test of the handler does reject: a form with no row, or with a row whose
  sets or reps are missing or zero or whose weight is not a number; and what a row that
  passes holds.\<close>

lemma readRow_Some:
  "readRow r = Some g \<Longrightarrow> \<not> falsy (sets g) \<and> \<not> falsy (reps g) \<and> weight g \<noteq> NaN"
  by (auto simp: readRow_def Let_def split: if_splits)

lemma map_filter_Nil: "list_all (\<lambda>r. f r \<noteq> None) rs \<Longrightarrow> List.map_filter f rs = [] \<longleftrightarrow> rs = []"
  by (cases rs) (auto simp: List.map_filter_simps)

lemma saveClick_rejects:
  assumes "currentUser st \<noteq> None" "truthy (currentLiftId st)"
    "rows st = [] \<or> list_ex (\<lambda>r. readRow r = None) (rows st)"
  shows "saveClick SESSIONS toStr rp history st = st\<lparr>alerts := alerts st @ [fillMessage]\<rparr>"
proof -
  obtain l where l: "currentLiftId st = Some l" "l \<noteq> []"
    using assms(2) by (auto simp: truthy_def split: option.splits)
  have "\<not> list_all (\<lambda>r. readRow r \<noteq> None) (rows st) \<or> List.map_filter readRow (rows st) = []"
    using assms(3) by (auto simp: list_all_iff list_ex_iff List.map_filter_simps)
  then show ?thesis
    using assms(1) l by (auto simp: saveClick_def truthy_def Let_def)
qed

text \<open>
  Claim C8, on an input the handler accepts: a row with \<open>-3\<close> sets, 5 reps and the
  weight \<open>-10\<close> passes the test of the handler, which rejects only a missing or zero
  number of sets or reps and a weight that is not a number; the entry is written with these
  values and no message is shown.
\<close>

theorem saveClick_accepts_negative:
  "db (saveClick exampleSessions exampleToStr exampleReply (Snapshot []) negativeApp) =
     db negativeApp @
     [(''e3'', \<lparr>lift = ''row'', date = Some 1728046800001,
               setGroups = [\<lparr>sets = Num (- 3), reps = Num 5, weight = Num (- 10)\<rparr>],
               entryNotes = [], session = Some ''session_b''\<rparr>)]
   \<and> alerts (saveClick exampleSessions exampleToStr exampleReply (Snapshot []) negativeApp) = []"
  by (simp add: saveClick_def writeEntry_def addDoc_def negativeApp_def exampleApp_def
      exampleReply_def exampleSessions_def truthy_def List.map_filter_simps readRow_negative
      loadHistory_def resetSetGroups_def trim_def Let_def)

theorem saveClick_accepts_negative_witness:
  "list_all (\<lambda>(i, e). entryInvariant e) (db negativeApp) \<and>
   \<not> list_all (\<lambda>(i, e). entryInvariant e)
      (db (saveClick exampleSessions exampleToStr exampleReply (Snapshot []) negativeApp))"
  using saveClick_accepts_negative
  by (simp add: negativeApp_def exampleApp_def exampleEntry_def entryInvariant_def
      groupInvariant_def holdsAtLeast_def)

end
